theory Spec2Isabelle
  imports Main "HOL-Library.List_Lexorder" "HOL-Library.Sublist" "HOL-Library.AList"
begin

section \<open>The indentation checker of solhint (lib/rules/align/indent.js)\<close>

text \<open>
  The rule walks an ANTLR parse tree and compares the column of every nested element,
  closing bracket and single controlled statement with the column its surroundings ask
  for. This theory embeds the rule's classes and functions and proves the properties the
  specification states about them.
\<close>

subsection \<open>Position source: tokens and tree nodes\<close>

text \<open>
  A token carries the four properties the rule reads. JavaScript numbers hold whole
  numbers in every place of this rule (lines, columns, channel and type codes, the
  configured size), so they are modelled as \<open>int\<close>.
\<close>

record token =
  line :: int
  column :: int
  channel :: int
  type :: int

text \<open>
  A tree node is either a rule context (its constructor name, its \<open>start\<close> and
  \<open>stop\<close> tokens, its text and its children) or a terminal node (its \<open>symbol\<close>
  and its text). The text is what \<open>getText()\<close> returns; it is a field of the node, so
  nothing is assumed about how the parser builds it. The children are a sequence,
  possibly empty, as in the specification's data model.
\<close>

datatype node =
    RuleContext string token token string "node list"
  | TerminalNode token string

text \<open>Every failure of the rule is a JavaScript \<open>TypeError\<close>: a property read on
  \<open>undefined\<close> or \<open>null\<close>.\<close>

datatype error = TypeError

fun getText :: "node \<Rightarrow> string" where
  "getText (RuleContext nm sta sto tx cs) = tx"
| "getText (TerminalNode s tx) = tx"

text \<open>\<open>ctx.constructor.name\<close>.\<close>

fun constructorName :: "node \<Rightarrow> string" where
  "constructorName (RuleContext nm sta sto tx cs) = nm"
| "constructorName (TerminalNode s tx) = ''TerminalNodeImpl''"

text \<open>\<open>ctx.children\<close>, \<open>ctx.symbol\<close> and \<open>ctx.start\<close>: \<open>None\<close> is JavaScript's
  \<open>undefined\<close>, the value of a property the object does not have.\<close>

fun children :: "node \<Rightarrow> node list option" where
  "children (RuleContext nm sta sto tx cs) = Some cs"
| "children (TerminalNode s tx) = None"

fun symbol :: "node \<Rightarrow> token option" where
  "symbol (RuleContext nm sta sto tx cs) = None"
| "symbol (TerminalNode s tx) = Some s"

fun start :: "node \<Rightarrow> token option" where
  "start (RuleContext nm sta sto tx cs) = Some sta"
| "start (TerminalNode s tx) = None"

text \<open>
  Modelled from the spec: \<open>lineOf\<close>, \<open>columnOf\<close> and \<open>stopLine\<close> are imported from
  \<open>lib/common/tokens.js\<close>, which is not among the sources. The specification gives a
  node "a line/column anchor (its first token's position)" and speaks of a sibling
  "whose span still ends on the target line": the anchor of a rule context is its start
  token, its span ends at its stop token, and a terminal node's only token is its symbol.
\<close>

fun lineOf :: "node \<Rightarrow> int" where
  "lineOf (RuleContext nm sta sto tx cs) = line sta"
| "lineOf (TerminalNode s tx) = line s"

fun columnOf :: "node \<Rightarrow> int" where
  "columnOf (RuleContext nm sta sto tx cs) = column sta"
| "columnOf (TerminalNode s tx) = column s"

fun stopLine :: "node \<Rightarrow> int" where
  "stopLine (RuleContext nm sta sto tx cs) = line sto"
| "stopLine (TerminalNode s tx) = line s"

text \<open>
  A JavaScript reference to a node of the tree is modelled by the node's position: the
  list of child indices that leads from the root to it. \<open>nodeAt t c\<close> is the object the
  reference \<open>c\<close> points to in the tree \<open>t\<close>, \<open>parentCtx c\<close> the reference held in its
  \<open>parentCtx\<close> property (\<open>None\<close> is \<open>null\<close>, at the root). Since every node object
  occurs once in the tree, \<open>parent.children.indexOf(node)\<close> is the last index of the
  node's position.
\<close>

type_synonym ctx = "nat list"

fun nodeAt :: "node \<Rightarrow> ctx \<Rightarrow> node option" where
  "nodeAt n [] = Some n"
| "nodeAt (TerminalNode s tx) (i # p) = None"
| "nodeAt (RuleContext nm sta sto tx cs) (i # p) =
     (if i < length cs then nodeAt (cs ! i) p else None)"

definition parentCtx :: "ctx \<Rightarrow> ctx option" where
  "parentCtx c = (if c = [] then None else Some (butlast c))"

text \<open>\<open>array[i]\<close> for a JavaScript number \<open>i\<close>: \<open>undefined\<close> outside the array.\<close>

definition at :: "'a list \<Rightarrow> int \<Rightarrow> 'a option" where
  "at xs i = (if 0 \<le> i \<and> i < int (length xs) then Some (xs ! nat i) else None)"

text \<open>\<open>array.indexOf(x)\<close>: the first index holding \<open>x\<close>, or \<open>-1\<close>.\<close>

fun indexOf :: "'a list \<Rightarrow> 'a \<Rightarrow> int" where
  "indexOf [] x = -1"
| "indexOf (y # ys) x =
     (if y = x then 0 else (let r = indexOf ys x in if r < 0 then -1 else r + 1))"

subsection \<open>Indent corrections attached to nodes\<close>

text \<open>
  The object \<open>{indent: .., correctIndent: ..}\<close> a validator stores in a node's
  \<open>indentError\<close> property: the column found and the column required. The properties of
  all nodes together are a list of (node, correction) pairs with the latest write first;
  reading \<open>node.indentError\<close> is \<open>map_of\<close>, which finds the latest write.
\<close>

record indentError =
  errIndent :: int
  errCorrectIndent :: int

type_synonym annotations = "(ctx \<times> indentError) list"

subsection \<open>The Correct-Indent Resolver\<close>

definition correctIndent :: "int \<Rightarrow> indentError \<Rightarrow> int" where
  "correctIndent curIndent e = curIndent - errIndent e + errCorrectIndent e"

text \<open>
  The do-while loop of \<open>correctIndentOf\<close>: \<open>l\<close> is \<open>lineOf(ctx)\<close> of the node the
  resolver was called for, \<open>curCtx\<close> the node the loop stands at. The body runs before
  the loop condition is tested, so the node itself is looked at first.
\<close>

function correctIndentOf_loop :: "node \<Rightarrow> annotations \<Rightarrow> int \<Rightarrow> int \<Rightarrow> ctx \<Rightarrow> error + int" where
  "correctIndentOf_loop t ann l curIndent curCtx =
     (case map_of ann curCtx of
        Some e \<Rightarrow> Inr (correctIndent curIndent e)
      | None \<Rightarrow>
          (case parentCtx curCtx of
             None \<Rightarrow> Inr curIndent
           | Some par \<Rightarrow>
               (case nodeAt t par of
                  None \<Rightarrow> Inl TypeError
                | Some pn \<Rightarrow>
                    if l = lineOf pn then correctIndentOf_loop t ann l curIndent par
                    else Inr curIndent)))"
  by pat_completeness auto
termination
  by (relation "measure (\<lambda>(t, ann, l, curIndent, curCtx). length curCtx)")
     (auto simp: parentCtx_def split: if_splits)

declare correctIndentOf_loop.simps [simp del]

definition correctIndentOf :: "node \<Rightarrow> annotations \<Rightarrow> ctx \<Rightarrow> error + int" where
  "correctIndentOf t ann c =
     (case nodeAt t c of
        None \<Rightarrow> Inl TypeError
      | Some n \<Rightarrow> correctIndentOf_loop t ann (lineOf n) (columnOf n) c)"

subsection \<open>The first node of a line\<close>

text \<open>
  The while loop of \<open>firstNodeOfLine\<close>: climb while the parent starts on the same line
  and is not the source unit. \<open>rootCtx.start.line\<close> fails on a terminal node, which has
  no \<open>start\<close>; the test of \<open>rootCtx.parentCtx\<close> comes first and ends the loop at the root.
\<close>

function walkUp :: "node \<Rightarrow> ctx \<Rightarrow> error + ctx" where
  "walkUp t rootCtx =
     (case parentCtx rootCtx of
        None \<Rightarrow> Inr rootCtx
      | Some par \<Rightarrow>
          (case (nodeAt t rootCtx, nodeAt t par) of
             (Some rn, Some pn) \<Rightarrow>
               (case (start rn, start pn) of
                  (Some rs, Some ps) \<Rightarrow>
                    if line rs = line ps \<and> constructorName pn \<noteq> ''SourceUnitContext''
                    then walkUp t par
                    else Inr rootCtx
                | _ \<Rightarrow> Inl TypeError)
           | _ \<Rightarrow> Inl TypeError))"
  by pat_completeness auto
termination
  by (relation "measure (\<lambda>(t, rootCtx). length rootCtx)")
     (auto simp: parentCtx_def split: if_splits)

declare walkUp.simps [simp del]

text \<open>
  The for loop over the earlier siblings, from index \<open>rootIdx - 1\<close> down to \<open>0\<close>:
  \<open>scanBack par cs l (i + 1) r\<close> is the loop standing at index \<open>i\<close> with \<open>resultNode = r\<close>,
  where \<open>cs\<close> are the parent's children and \<open>l\<close> is \<open>lineOf(rootCtx)\<close>.
\<close>

primrec scanBack :: "ctx \<Rightarrow> node list \<Rightarrow> int \<Rightarrow> nat \<Rightarrow> ctx \<Rightarrow> ctx" where
  "scanBack par cs l 0 resultNode = resultNode"
| "scanBack par cs l (Suc i) resultNode =
     scanBack par cs l i (if stopLine (cs ! i) = l then par @ [i] else resultNode)"

definition siblingScan :: "node \<Rightarrow> ctx \<Rightarrow> error + ctx" where
  "siblingScan t rootCtx =
     (case parentCtx rootCtx of
        None \<Rightarrow> Inr rootCtx
      | Some curParent \<Rightarrow>
          (case (nodeAt t rootCtx, nodeAt t curParent) of
             (Some rn, Some pn) \<Rightarrow>
               (case children pn of
                  None \<Rightarrow> Inl TypeError
                | Some cs \<Rightarrow> Inr (scanBack curParent cs (lineOf rn) (last rootCtx) rootCtx))
           | _ \<Rightarrow> Inl TypeError))"

text \<open>Document order on node positions: an ancestor comes before its descendants and an
  earlier sibling before a later one. \<open>docIndex t c\<close> counts the nodes before \<open>c\<close>.\<close>

definition docIndex :: "node \<Rightarrow> ctx \<Rightarrow> nat" where
  "docIndex t c = card {q. nodeAt t q \<noteq> None \<and> q < c}"

lemma nodeAt_snoc:
  "nodeAt t (p @ [i]) = (case nodeAt t p of None \<Rightarrow> None
      | Some n \<Rightarrow> (case children n of None \<Rightarrow> None | Some cs \<Rightarrow> if i < length cs then Some (cs ! i) else None))"
proof (induction t p rule: nodeAt.induct)
  case (1 n)
  then show ?case by (cases n) auto
next
  case (2 s tx i p)
  then show ?case by simp
next
  case (3 nm sta sto tx cs i p)
  then show ?case by simp
qed

lemma nodeAt_butlast:
  "nodeAt t c = Some n \<Longrightarrow> c \<noteq> [] \<Longrightarrow> \<exists>pn cs. nodeAt t (butlast c) = Some pn \<and> children pn = Some cs \<and> last c < length cs \<and> cs ! last c = n"
  using nodeAt_snoc[of t "butlast c" "last c"]
  by (auto split: option.splits if_splits)

lemma finite_valid: "finite {q. nodeAt t q \<noteq> None}"
proof (induction t)
  case (RuleContext nm sta sto tx cs)
  have "{q. nodeAt (RuleContext nm sta sto tx cs) q \<noteq> None}
        \<subseteq> insert [] (\<Union>i\<in>{..<length cs}. (\<lambda>p. i # p) ` {q. nodeAt (cs ! i) q \<noteq> None})"
  proof
    fix q assume "q \<in> {q. nodeAt (RuleContext nm sta sto tx cs) q \<noteq> None}"
    then show "q \<in> insert [] (\<Union>i\<in>{..<length cs}. (\<lambda>p. i # p) ` {q. nodeAt (cs ! i) q \<noteq> None})"
      by (cases q) (auto split: if_splits)
  qed
  moreover have "finite (insert [] (\<Union>i\<in>{..<length cs}. (\<lambda>p. i # p) ` {q. nodeAt (cs ! i) q \<noteq> None}))"
    using RuleContext.IH by auto
  ultimately show ?case by (rule finite_subset)
next
  case (TerminalNode s tx)
  have "{q. nodeAt (TerminalNode s tx) q \<noteq> None} \<subseteq> {[]}"
  proof
    fix q assume "q \<in> {q. nodeAt (TerminalNode s tx) q \<noteq> None}"
    then show "q \<in> {[]}" by (cases q) auto
  qed
  then show ?case by (rule finite_subset) simp
qed

lemma docIndex_less:
  assumes "nodeAt t q \<noteq> None" "q < c"
  shows "docIndex t q < docIndex t c"
proof -
  have "{r. nodeAt t r \<noteq> None \<and> r < q} \<subset> {r. nodeAt t r \<noteq> None \<and> r < c}"
    using assms by (auto intro: less_trans)
  moreover have "finite {r. nodeAt t r \<noteq> None \<and> r < c}"
    using finite_valid[of t] by (rule rev_finite_subset) auto
  ultimately show ?thesis unfolding docIndex_def by (rule psubset_card_mono[rotated])
qed

lemma earlier_sibling_less:
  assumes "r \<noteq> []" "i < last r" "prefix r c"
  shows "butlast r @ [i] < (c :: nat list)"
proof -
  obtain rest where c: "c = r @ rest" using assms(3) by (auto simp: prefix_def)
  have r: "r = butlast r @ [last r]" using assms(1) by simp
  have "c = butlast r @ (last r # rest)" using c r by (metis append.assoc append_Cons append_Nil)
  then show ?thesis using assms(2)
    by (auto simp: list_less_def lexord_append_leftI lexord_cons_cons)
qed

lemma walkUp_Nil: "walkUp t [] = Inr []"
  by (simp add: walkUp.simps[of t "[]"] parentCtx_def)

lemma walkUp_snoc:
  "walkUp t (p @ [i]) =
     (case (nodeAt t (p @ [i]), nodeAt t p) of
        (Some rn, Some pn) \<Rightarrow>
          (case (start rn, start pn) of
             (Some rs, Some ps) \<Rightarrow>
               if line rs = line ps \<and> constructorName pn \<noteq> ''SourceUnitContext''
               then walkUp t p
               else Inr (p @ [i])
           | _ \<Rightarrow> Inl TypeError)
      | _ \<Rightarrow> Inl TypeError)"
  by (subst walkUp.simps) (simp add: parentCtx_def)

lemma walkUp_prefix: "walkUp t c = Inr r \<Longrightarrow> prefix r c"
proof (induction c rule: rev_induct)
  case Nil
  then show ?case by (simp add: walkUp_Nil)
next
  case (snoc i p)
  then show ?case
    by (auto simp: walkUp_snoc split: option.splits if_splits)
qed

lemma lineOf_start: "start n = Some s \<Longrightarrow> lineOf n = line s"
  by (cases n) auto

lemma walkUp_line:
  "walkUp t c = Inr r \<Longrightarrow> nodeAt t c = Some n \<Longrightarrow> \<exists>rn. nodeAt t r = Some rn \<and> lineOf rn = lineOf n"
proof (induction c arbitrary: n rule: rev_induct)
  case Nil
  then show ?case by (simp add: walkUp_Nil)
next
  case (snoc i p)
  then show ?case
    by (auto simp: walkUp_snoc lineOf_start split: option.splits if_splits)
qed

lemma scanBack_cases:
  "scanBack par cs l k r = r \<or> (\<exists>i<k. scanBack par cs l k r = par @ [i])"
proof (induction k arbitrary: r)
  case 0
  then show ?case by simp
next
  case (Suc k)
  show ?case
    using Suc.IH[of "if stopLine (cs ! k) = l then par @ [k] else r"]
    by (auto simp: less_Suc_eq)
qed

lemma siblingScan_cases:
  "siblingScan t r = Inr res \<Longrightarrow> res = r \<or> (r \<noteq> [] \<and> (\<exists>i<last r. res = butlast r @ [i]))"
  using scanBack_cases
  by (fastforce simp: siblingScan_def parentCtx_def split: option.splits if_splits)

lemma firstNodeOfLine_progress:
  assumes "walkUp t c = Inr rootCtx" "siblingScan t rootCtx = Inr res"
    "nodeAt t c = Some n" "nodeAt t res = Some r" "lineOf n \<noteq> lineOf r"
  shows "docIndex t res < docIndex t c"
proof -
  have pre: "prefix rootCtx c" using assms(1) by (rule walkUp_prefix)
  obtain rn where rn: "nodeAt t rootCtx = Some rn" "lineOf rn = lineOf n"
    using walkUp_line[OF assms(1) assms(3)] by auto
  have "res \<noteq> rootCtx" using rn assms(4,5) by auto
  then obtain i where i: "rootCtx \<noteq> []" "i < last rootCtx" "res = butlast rootCtx @ [i]"
    using siblingScan_cases[OF assms(2)] by auto
  have "res < c" using earlier_sibling_less[OF i(1,2) pre] i(3) by simp
  then show ?thesis using docIndex_less[of t res c] assms(4) by simp
qed

text \<open>
  \<open>firstNodeOfLine\<close>: the climb, the scan of the earlier siblings, and the recursive
  call when the node found starts on another line than \<open>ctx\<close>. The recursion ends
  because the node found is an earlier sibling of an ancestor of \<open>ctx\<close> (or of
  \<open>ctx\<close> itself), which comes before \<open>ctx\<close> in document order.
\<close>

function firstNodeOfLine :: "node \<Rightarrow> ctx \<Rightarrow> error + ctx" where
  "firstNodeOfLine t c =
     (case walkUp t c of
        Inl e \<Rightarrow> Inl e
      | Inr rootCtx \<Rightarrow>
          (case siblingScan t rootCtx of
             Inl e \<Rightarrow> Inl e
           | Inr resultNode \<Rightarrow>
               (case (nodeAt t c, nodeAt t resultNode) of
                  (Some n, Some r) \<Rightarrow>
                    if lineOf n \<noteq> lineOf r then firstNodeOfLine t resultNode
                    else Inr resultNode
                | _ \<Rightarrow> Inl TypeError)))"
  by pat_completeness auto

termination
proof (relation "measure (\<lambda>(t, c). docIndex t c)")
  show "wf (measure (\<lambda>(t, c). docIndex t c))" by simp
next
  fix t c rootCtx res x y n r
  assume "walkUp t c = Inr rootCtx" "siblingScan t rootCtx = Inr res"
    "(x, y) = (nodeAt t c, nodeAt t res)" "x = Some n" "y = Some r" "lineOf n \<noteq> lineOf r"
  then show "((t, res), (t, c)) \<in> measure (\<lambda>(t, c). docIndex t c)"
    using firstNodeOfLine_progress[of t c rootCtx res n r] by simp
qed

declare firstNodeOfLine.simps [simp del]

subsection \<open>The reporter and the state the validators share\<close>

text \<open>
  A message is kept as the pieces of its template string, so that the numbers in it stay
  numbers.
\<close>

datatype piece = Str string | Num int

record report =
  atLine :: int
  atColumn :: int
  ruleId :: string
  message :: "piece list"

text \<open>
  Modelled from the spec: the reporter (\<open>lib/reporter.js\<close>) is not among the sources.
  The specification describes it as "a sink invoked as report(line, column, category,
  message); called once per detected violation; never batched": \<open>errorAt\<close> appends the
  call to the list of reports.
\<close>

definition errorAt :: "report list \<Rightarrow> int \<Rightarrow> int \<Rightarrow> string \<Rightarrow> piece list \<Rightarrow> report list" where
  "errorAt rep l c rid msg = rep @ [\<lparr>atLine = l, atColumn = c, ruleId = rid, message = msg\<rparr>]"

text \<open>What the validators change outside themselves: the reporter they all hold, and the
  \<open>indentError\<close> properties of the tree's nodes.\<close>

record world =
  reporter :: "report list"
  indentErrors :: annotations

subsection \<open>Block view\<close>

text \<open>
  The class \<open>Block\<close> wraps a node; its methods are functions of that node. The two
  memoized indices are computed from the children, which never change, so memoizing
  does not show. In \<open>_startBracketIndex\<close>, \<open>children && ...\<close> yields \<open>undefined\<close>
  (\<open>None\<close>) for a node without children property.
\<close>

definition startBracketIndex :: "node \<Rightarrow> int option" where
  "startBracketIndex n =
     (case children n of None \<Rightarrow> None | Some cs \<Rightarrow> Some (indexOf (map getText cs) ''{''))"

text \<open>\<open>undefined !== null\<close> holds and \<open>undefined >= 0\<close> does not.\<close>

definition hasStartBracket :: "node \<Rightarrow> bool" where
  "hasStartBracket n = (case startBracketIndex n of None \<Rightarrow> False | Some i \<Rightarrow> i \<ge> 0)"

definition startBracket :: "node \<Rightarrow> error + node option" where
  "startBracket n =
     (case children n of
        None \<Rightarrow> Inl TypeError
      | Some cs \<Rightarrow> Inr (case startBracketIndex n of None \<Rightarrow> None | Some i \<Rightarrow> at cs i))"

text \<open>\<open>x.symbol.line\<close> and \<open>x.symbol.column\<close> of a child \<open>x\<close> that may be \<open>undefined\<close>.\<close>

definition symbolLine :: "node option \<Rightarrow> error + int" where
  "symbolLine x =
     (case x of
        None \<Rightarrow> Inl TypeError
      | Some b \<Rightarrow> (case symbol b of None \<Rightarrow> Inl TypeError | Some s \<Rightarrow> Inr (line s)))"

definition symbolColumn :: "node option \<Rightarrow> error + int" where
  "symbolColumn x =
     (case x of
        None \<Rightarrow> Inl TypeError
      | Some b \<Rightarrow> (case symbol b of None \<Rightarrow> Inl TypeError | Some s \<Rightarrow> Inr (column s)))"

definition startBracketLine :: "node \<Rightarrow> error + int" where
  "startBracketLine n = (case startBracket n of Inl e \<Rightarrow> Inl e | Inr b \<Rightarrow> symbolLine b)"

definition endBracketIndex :: "node \<Rightarrow> error + int" where
  "endBracketIndex n =
     (case children n of
        None \<Rightarrow> Inl TypeError
      | Some cs \<Rightarrow> Inr (indexOf (map getText cs) ''}''))"

text \<open>\<open>children[children.length - 1]\<close>: the last child, whatever its text.\<close>

definition endBracket :: "node \<Rightarrow> error + node option" where
  "endBracket n =
     (case children n of
        None \<Rightarrow> Inl TypeError
      | Some cs \<Rightarrow> Inr (at cs (int (length cs) - 1)))"

definition endBracketLine :: "node \<Rightarrow> error + int" where
  "endBracketLine n = (case endBracket n of Inl e \<Rightarrow> Inl e | Inr b \<Rightarrow> symbolLine b)"

definition endBracketColumn :: "node \<Rightarrow> error + int" where
  "endBracketColumn n = (case endBracket n of Inl e \<Rightarrow> Inl e | Inr b \<Rightarrow> symbolColumn b)"

definition isBracketsOnSameLine :: "node \<Rightarrow> error + bool" where
  "isBracketsOnSameLine n =
     (case startBracketLine n of
        Inl e \<Rightarrow> Inl e
      | Inr sl \<Rightarrow> (case endBracketLine n of Inl e \<Rightarrow> Inl e | Inr el \<Rightarrow> Inr (sl = el)))"

text \<open>
  \<open>forEachNestedNode\<close>: the children at the indices from \<open>startBracketIndex() + 1\<close> up to,
  not including, \<open>endBracketIndex()\<close>; a child with a \<open>symbol\<close> is a terminal and is
  passed over. \<open>c\<close> is the reference to the block's node, so \<open>c @ [i]\<close> is the reference to
  its child \<open>i\<close>. Both indices are results of \<open>indexOf\<close>, at least \<open>-1\<close> and below
  the number of children, so every index the loop visits is inside the array.
\<close>

definition nestedStep :: "(ctx \<Rightarrow> int \<Rightarrow> int \<Rightarrow> 's \<Rightarrow> 's) \<Rightarrow> ctx \<Rightarrow> node list \<Rightarrow> nat \<Rightarrow> 's \<Rightarrow> 's" where
  "nestedStep callback c cs i st =
     (let curItem = cs ! i in
      case symbol curItem of
        Some isTerm \<Rightarrow> st
      | None \<Rightarrow> callback (c @ [i]) (lineOf curItem) (columnOf curItem) st)"

definition forEachNestedNode :: "(ctx \<Rightarrow> int \<Rightarrow> int \<Rightarrow> 's \<Rightarrow> 's) \<Rightarrow> ctx \<Rightarrow> node \<Rightarrow> 's \<Rightarrow> error + 's" where
  "forEachNestedNode callback c n st =
     (case children n of
        None \<Rightarrow> Inl TypeError
      | Some cs \<Rightarrow>
          Inr (fold (nestedStep callback c cs)
                 [nat (indexOf (map getText cs) ''{'' + 1) ..< nat (indexOf (map getText cs) ''}'')]
                 st))"

subsection \<open>KnowLineValidator and the two validators that extend it\<close>

record KnowLineValidator =
  indent :: int
  indentUnit :: string
  linesWithError :: "int list"

type_synonym vstate = "KnowLineValidator \<times> world"

definition makeReportCorrectLine :: "int \<Rightarrow> int \<Rightarrow> int \<Rightarrow> vstate \<Rightarrow> vstate" where
  "makeReportCorrectLine l col correct st =
     (case st of (v, w) \<Rightarrow>
        (v\<lparr>linesWithError := linesWithError v @ [l]\<rparr>,
         w\<lparr>reporter := errorAt (reporter w) l col ''indent''
              [Str ''Expected indentation of '', Num correct, Str '' '', Str (indentUnit v),
               Str '' but found '', Num col]\<rparr>))"

text \<open>\<open>BlockValidator\<close>. \<open>validateNode(requiredIndent)\<close> is the callback given to
  \<open>forEachNestedNode\<close>; the assignment to \<open>curItem.indentError\<close> puts a new pair in front of
  the annotations.\<close>

definition validateNode :: "int \<Rightarrow> ctx \<Rightarrow> int \<Rightarrow> int \<Rightarrow> vstate \<Rightarrow> vstate" where
  "validateNode requiredIndent curItem curLine curColumn st =
     (if curColumn \<noteq> requiredIndent
      then (case makeReportCorrectLine curLine curColumn requiredIndent st of (v, w) \<Rightarrow>
              (v, w\<lparr>indentErrors :=
                     (curItem, \<lparr>errIndent = curColumn, errCorrectIndent = requiredIndent\<rparr>)
                       # indentErrors w\<rparr>))
      else st)"

text \<open>\<open>correctIndentOf(firstNodeOfLine(ctx))\<close>, with the annotations of the moment.\<close>

definition anchorIndent :: "node \<Rightarrow> annotations \<Rightarrow> ctx \<Rightarrow> error + int" where
  "anchorIndent t ann c =
     (case firstNodeOfLine t c of Inl e \<Rightarrow> Inl e | Inr a \<Rightarrow> correctIndentOf t ann a)"

definition validateIndentOfNestedElements :: "node \<Rightarrow> ctx \<Rightarrow> node \<Rightarrow> vstate \<Rightarrow> error + vstate" where
  "validateIndentOfNestedElements t c n st =
     (case anchorIndent t (indentErrors (snd st)) c of
        Inl e \<Rightarrow> Inl e
      | Inr a \<Rightarrow> forEachNestedNode (validateNode (a + indent (fst st))) c n st)"

definition validateEndBracketIndent :: "node \<Rightarrow> ctx \<Rightarrow> node \<Rightarrow> vstate \<Rightarrow> error + vstate" where
  "validateEndBracketIndent t c n st =
     (case anchorIndent t (indentErrors (snd st)) c of
        Inl e \<Rightarrow> Inl e
      | Inr endBracketCorrectIndent \<Rightarrow>
          (case endBracketColumn n of
             Inl e \<Rightarrow> Inl e
           | Inr col \<Rightarrow>
               if endBracketCorrectIndent \<noteq> col
               then (case endBracketLine n of
                       Inl e \<Rightarrow> Inl e
                     | Inr l \<Rightarrow> Inr (makeReportCorrectLine l col endBracketCorrectIndent st))
               else Inr st))"

definition validateBlock :: "node \<Rightarrow> ctx \<Rightarrow> vstate \<Rightarrow> error + vstate" where
  "validateBlock t c st =
     (case nodeAt t c of
        None \<Rightarrow> Inl TypeError
      | Some n \<Rightarrow>
          if \<not> hasStartBracket n then Inr st
          else (case isBracketsOnSameLine n of
                  Inl e \<Rightarrow> Inl e
                | Inr True \<Rightarrow> Inr st
                | Inr False \<Rightarrow>
                    (case validateIndentOfNestedElements t c n st of
                       Inl e \<Rightarrow> Inl e
                     | Inr st1 \<Rightarrow> validateEndBracketIndent t c n st1)))"

text \<open>
  \<open>NestedSingleLineValidator.validate(ctx, index)\<close>. The statements before the \<open>if\<close>
  are evaluated whatever its outcome, so each of them can fail: \<open>columnOf(statement)\<close>
  when \<open>children[index]\<close> is \<open>undefined\<close>, \<open>correctIndentOf(ctx.parentCtx)\<close> when the
  parent is \<open>null\<close>, and \<open>statement.children[0].constructor\<close> when the statement has
  no first child.
\<close>

definition validate :: "node \<Rightarrow> ctx \<Rightarrow> int \<Rightarrow> vstate \<Rightarrow> error + vstate" where
  "validate t c index st =
     (case nodeAt t c of
        None \<Rightarrow> Inl TypeError
      | Some (TerminalNode s tx) \<Rightarrow> Inl TypeError
      | Some (RuleContext nm startTok sto tx cs) \<Rightarrow>
          if int (length cs) \<le> index then Inr st
          else (case (at cs index, parentCtx c) of
                  (Some statement, Some par) \<Rightarrow>
                    (case correctIndentOf t (indentErrors (snd st)) par of
                       Inl e \<Rightarrow> Inl e
                     | Inr r \<Rightarrow>
                         (case children statement of
                            None \<Rightarrow> Inl TypeError
                          | Some [] \<Rightarrow> Inl TypeError
                          | Some (first # rest) \<Rightarrow>
                              (let statementColumn = columnOf statement;
                                   statementLine = lineOf statement;
                                   requiredIndent = r + indent (fst st)
                               in if constructorName first \<notin> {''BlockContext'', ''IfStatementContext''}
                                     \<and> statementColumn \<noteq> requiredIndent
                                     \<and> statementLine \<noteq> line startTok
                                  then (case makeReportCorrectLine statementLine statementColumn
                                               requiredIndent st of
                                          (v, w) \<Rightarrow>
                                            Inr (v, w\<lparr>indentErrors :=
                                                       (c @ [nat index],
                                                        \<lparr>errIndent = statementColumn,
                                                         errCorrectIndent = requiredIndent\<rparr>)
                                                         # indentErrors w\<rparr>))
                                  else Inr st)))
                | _ \<Rightarrow> Inl TypeError))"

fun validateMultiple :: "node \<Rightarrow> ctx \<Rightarrow> int list \<Rightarrow> vstate \<Rightarrow> error + vstate" where
  "validateMultiple t c [] st = Inr st"
| "validateMultiple t c (index # indexes) st =
     (case validate t c index st of
        Inl e \<Rightarrow> Inl e
      | Inr st1 \<Rightarrow> validateMultiple t c indexes st1)"

subsection \<open>BaseIndentMultiplicityValidator\<close>

text \<open>
  \<open>firstIndent\<close> is used as a plain object keyed by line number: an association list
  with one entry per line. The \<open>for ... in\<close> loop of \<open>validate\<close> visits its keys; line
  numbers are integer keys, which JavaScript enumerates in ascending order.
\<close>

record BaseIndentMultiplicityValidator =
  baseIndent :: int
  firstIndent :: "(int \<times> int) list"

text \<open>\<open>curIndent > column || _.isUndefined(curIndent)\<close>: a comparison with \<open>undefined\<close> is
  false, so the second operand decides for a line not seen before.\<close>

definition applyTokenIndent :: "token \<Rightarrow> BaseIndentMultiplicityValidator \<Rightarrow> BaseIndentMultiplicityValidator" where
  "applyTokenIndent tok b =
     (if (case map_of (firstIndent b) (line tok) of
            None \<Rightarrow> True
          | Some curIndent \<Rightarrow> curIndent > column tok)
      then b\<lparr>firstIndent := AList.update (line tok) (column tok) (firstIndent b)\<rparr>
      else b)"

text \<open>JavaScript's \<open>a % b\<close> on whole numbers: the remainder takes the sign of \<open>a\<close>, and
  is \<open>NaN\<close> (\<open>None\<close>) when \<open>b\<close> is zero.\<close>

definition jsRemainder :: "int \<Rightarrow> int \<Rightarrow> int option" where
  "jsRemainder a b = (if b = 0 then None else Some (sgn a * (\<bar>a\<bar> mod \<bar>b\<bar>)))"

text \<open>\<open>indent % this.indent !== 0\<close>; \<open>NaN !== 0\<close> holds.\<close>

definition isNotValidForBaseIndent :: "BaseIndentMultiplicityValidator \<Rightarrow> int \<Rightarrow> bool" where
  "isNotValidForBaseIndent b i = (jsRemainder i (baseIndent b) \<noteq> Some 0)"

definition baseError :: "report list \<Rightarrow> int \<Rightarrow> int \<Rightarrow> report list" where
  "baseError rep l col = errorAt rep l col ''indent'' [Str ''Indentation is incorrect'']"

definition baseLineStep :: "BaseIndentMultiplicityValidator \<Rightarrow> int list \<Rightarrow> int \<Rightarrow> report list \<Rightarrow> report list" where
  "baseLineStep b linesWithErrors curLine rep =
     (if curLine \<in> set linesWithErrors then rep
      else (case map_of (firstIndent b) curLine of
              None \<Rightarrow> rep
            | Some curIndent \<Rightarrow>
                if isNotValidForBaseIndent b curIndent then baseError rep curLine curIndent
                else rep))"

text \<open>\<open>BaseIndentMultiplicityValidator.validate(linesWithError, ctx)\<close>; \<open>toks\<close> is
  \<open>ctx.parser._input.tokens\<close>, the token stream of the file.\<close>

definition baseValidate :: "int list \<Rightarrow> token list \<Rightarrow> BaseIndentMultiplicityValidator \<times> report list \<Rightarrow> BaseIndentMultiplicityValidator \<times> report list" where
  "baseValidate linesWithErrors toks st =
     (case st of (b, rep) \<Rightarrow>
        (let tokens = filter (\<lambda>i. channel i = 0 \<and> type i \<ge> 0) toks;
             b1 = fold applyTokenIndent tokens b
         in (b1, fold (baseLineStep b1 linesWithErrors) (sort (map fst (firstIndent b1))) rep)))"

subsection \<open>Configuration\<close>

text \<open>The values a configuration object is made of, as \<open>JSON.parse\<close> or a caller
  builds them.\<close>

datatype jsval =
    JUndefined
  | JNull
  | JBool bool
  | JNumber int
  | JString string
  | JArray "jsval list"
  | JObject "(string \<times> jsval) list"

text \<open>\<open>v.name\<close> for the property names the rule reads (\<open>rules\<close>, \<open>indent\<close>,
  \<open>length\<close>): a \<open>TypeError\<close> on \<open>undefined\<close> and \<open>null\<close>, \<open>undefined\<close> where
  the value has no such property.\<close>

fun getProp :: "jsval \<Rightarrow> string \<Rightarrow> error + jsval" where
  "getProp JUndefined k = Inl TypeError"
| "getProp JNull k = Inl TypeError"
| "getProp (JObject kvs) k = Inr (case map_of kvs k of None \<Rightarrow> JUndefined | Some v \<Rightarrow> v)"
| "getProp (JArray xs) k = Inr (if k = ''length'' then JNumber (int (length xs)) else JUndefined)"
| "getProp (JString s) k = Inr (if k = ''length'' then JNumber (int (length s)) else JUndefined)"
| "getProp (JBool b) k = Inr JUndefined"
| "getProp (JNumber n) k = Inr JUndefined"

text \<open>\<open>v[1]\<close>.\<close>

fun getIndex1 :: "jsval \<Rightarrow> error + jsval" where
  "getIndex1 JUndefined = Inl TypeError"
| "getIndex1 JNull = Inl TypeError"
| "getIndex1 (JObject kvs) = Inr (case map_of kvs ''1'' of None \<Rightarrow> JUndefined | Some v \<Rightarrow> v)"
| "getIndex1 (JArray xs) = Inr (if 1 < length xs then xs ! 1 else JUndefined)"
| "getIndex1 (JString s) = Inr (if 1 < length s then JString [s ! 1] else JUndefined)"
| "getIndex1 (JBool b) = Inr JUndefined"
| "getIndex1 (JNumber n) = Inr JUndefined"

fun truthy :: "jsval \<Rightarrow> bool" where
  "truthy JUndefined = False"
| "truthy JNull = False"
| "truthy (JBool b) = b"
| "truthy (JNumber n) = (n \<noteq> 0)"
| "truthy (JString s) = (s \<noteq> [])"
| "truthy (JArray xs) = True"
| "truthy (JObject kvs) = True"

text \<open>The object \<open>parseConfig\<close> returns: \<open>{}\<close> has neither property.\<close>

record parsedConfig =
  indentOpt :: "int option"
  unitOpt :: "string option"

definition parseConfig :: "jsval \<Rightarrow> error + parsedConfig" where
  "parseConfig config =
     (case getProp config ''rules'' of
        Inl e \<Rightarrow> Inl e
      | Inr rules \<Rightarrow>
          if \<not> truthy rules then Inr \<lparr>indentOpt = None, unitOpt = None\<rparr>
          else (case getProp rules ''indent'' of
                  Inl e \<Rightarrow> Inl e
                | Inr ind \<Rightarrow>
                    if \<not> truthy ind then Inr \<lparr>indentOpt = None, unitOpt = None\<rparr>
                    else (case getProp ind ''length'' of
                            Inl e \<Rightarrow> Inl e
                          | Inr len \<Rightarrow>
                              if len \<noteq> JNumber 2 then Inr \<lparr>indentOpt = None, unitOpt = None\<rparr>
                              else (case getIndex1 ind of
                                      Inl e \<Rightarrow> Inl e
                                    | Inr indentConf \<Rightarrow>
                                        if indentConf = JString ''tabs''
                                        then Inr \<lparr>indentOpt = Some 1, unitOpt = Some ''tabs''\<rparr>
                                        else (case indentConf of
                                                JNumber k \<Rightarrow>
                                                  Inr \<lparr>indentOpt = Some k, unitOpt = Some ''spaces''\<rparr>
                                              | _ \<Rightarrow> Inr \<lparr>indentOpt = None, unitOpt = None\<rparr>)))))"

subsection \<open>IndentChecker\<close>

record IndentChecker =
  blockValidator :: KnowLineValidator
  nestedSingleLineValidator :: KnowLineValidator
  baseIndentMultiplicityValidator :: BaseIndentMultiplicityValidator

text \<open>The constructor: \<open>x || 4\<close> takes \<open>4\<close> for a missing property and for \<open>0\<close>,
  \<open>x || 'spaces'\<close> takes \<open>'spaces'\<close> for a missing property and for the empty string.\<close>

definition newIndentChecker :: "jsval \<Rightarrow> error + IndentChecker" where
  "newIndentChecker config =
     (case parseConfig config of
        Inl e \<Rightarrow> Inl e
      | Inr pc \<Rightarrow>
          (let i = (case indentOpt pc of None \<Rightarrow> 4 | Some k \<Rightarrow> if k = 0 then 4 else k);
               u = (case unitOpt pc of None \<Rightarrow> ''spaces'' | Some x \<Rightarrow> if x = [] then ''spaces'' else x)
           in Inr \<lparr>blockValidator = \<lparr>indent = i, indentUnit = u, linesWithError = []\<rparr>,
                   nestedSingleLineValidator = \<lparr>indent = i, indentUnit = u, linesWithError = []\<rparr>,
                   baseIndentMultiplicityValidator = \<lparr>baseIndent = i, firstIndent = []\<rparr>\<rparr>))"

type_synonym cstate = "IndentChecker \<times> world"

text \<open>The six hooks that call \<open>this.blockValidator.validateBlock(ctx)\<close>.\<close>

definition enterBlock :: "node \<Rightarrow> ctx \<Rightarrow> cstate \<Rightarrow> error + cstate" where
  "enterBlock t c st =
     (case st of (chk, w) \<Rightarrow>
        (case validateBlock t c (blockValidator chk, w) of
           Inl e \<Rightarrow> Inl e
         | Inr (v, w1) \<Rightarrow> Inr (chk\<lparr>blockValidator := v\<rparr>, w1)))"

text \<open>\<open>this.nestedSingleLineValidator.validateMultiple(ctx, indexes)\<close>; \<open>validate(ctx, i)\<close>
  is \<open>validateMultiple\<close> with the one index.\<close>

definition enterNested :: "node \<Rightarrow> ctx \<Rightarrow> int list \<Rightarrow> cstate \<Rightarrow> error + cstate" where
  "enterNested t c indexes st =
     (case st of (chk, w) \<Rightarrow>
        (case validateMultiple t c indexes (nestedSingleLineValidator chk, w) of
           Inl e \<Rightarrow> Inl e
         | Inr (v, w1) \<Rightarrow> Inr (chk\<lparr>nestedSingleLineValidator := v\<rparr>, w1)))"

definition enterIfStatement :: "node \<Rightarrow> ctx \<Rightarrow> cstate \<Rightarrow> error + cstate" where
  "enterIfStatement t c st = enterNested t c [4, 6] st"

definition enterWhileStatement :: "node \<Rightarrow> ctx \<Rightarrow> cstate \<Rightarrow> error + cstate" where
  "enterWhileStatement t c st = enterNested t c [4] st"

definition enterDoWhileStatement :: "node \<Rightarrow> ctx \<Rightarrow> cstate \<Rightarrow> error + cstate" where
  "enterDoWhileStatement t c st = enterNested t c [1] st"

definition enterForStatement :: "node \<Rightarrow> ctx \<Rightarrow> cstate \<Rightarrow> error + cstate" where
  "enterForStatement t c st =
     (case nodeAt t c of
        None \<Rightarrow> Inl TypeError
      | Some n \<Rightarrow>
          (case children n of
             None \<Rightarrow> Inl TypeError
           | Some cs \<Rightarrow> enterNested t c [int (length cs) - 1] st))"

text \<open>\<open>enterSourceUnit\<close>: every child whose text is not \<open><EOF>\<close> is required at
  column \<open>0\<close>.\<close>

definition sourceUnitStep :: "ctx \<Rightarrow> node list \<Rightarrow> nat \<Rightarrow> vstate \<Rightarrow> vstate" where
  "sourceUnitStep c cs i st =
     (let curNode = cs ! i in
      if getText curNode \<noteq> ''<EOF>''
      then validateNode 0 (c @ [i]) (lineOf curNode) (columnOf curNode) st
      else st)"

definition enterSourceUnit :: "node \<Rightarrow> ctx \<Rightarrow> cstate \<Rightarrow> error + cstate" where
  "enterSourceUnit t c st =
     (case st of (chk, w) \<Rightarrow>
        (case nodeAt t c of
           None \<Rightarrow> Inl TypeError
         | Some n \<Rightarrow>
             (case children n of
                None \<Rightarrow> Inl TypeError
              | Some cs \<Rightarrow>
                  (case fold (sourceUnitStep c cs) [0 ..< length cs] (blockValidator chk, w) of
                     (v, w1) \<Rightarrow> Inr (chk\<lparr>blockValidator := v\<rparr>, w1)))))"

definition getLinesWithError :: "IndentChecker \<Rightarrow> int list" where
  "getLinesWithError chk =
     linesWithError (nestedSingleLineValidator chk) @ linesWithError (blockValidator chk)"

definition exitSourceUnit :: "token list \<Rightarrow> cstate \<Rightarrow> cstate" where
  "exitSourceUnit toks st =
     (case st of (chk, w) \<Rightarrow>
        (case baseValidate (getLinesWithError chk) toks
                (baseIndentMultiplicityValidator chk, reporter w) of
           (b, rep) \<Rightarrow> (chk\<lparr>baseIndentMultiplicityValidator := b\<rparr>, w\<lparr>reporter := rep\<rparr>)))"

subsection \<open>The traversal\<close>

text \<open>
  Modelled from the spec: the tree walker that drives the checker is the parser
  runtime's, called from \<open>lib/index.js\<close>; neither is among the sources. The
  specification describes "a depth-first enter/exit walk over one source unit's tree",
  with "enter/exit hooks keyed to node kind": a rule context of kind \<open>K\<close> (constructor
  name \<open>KContext\<close>) calls \<open>enterK\<close> before its children are walked and \<open>exitK\<close> after;
  terminal nodes call no hook of this checker. It also says that no condition is fatal
  to the check: "a malformed tree region (e.g., missing expected child slot) is handled
  by skipping that check, never by aborting the pass". So the walk catches what a hook
  raises and goes on with the children of the node.
\<close>

definition enterRule :: "node \<Rightarrow> ctx \<Rightarrow> string \<Rightarrow> cstate \<Rightarrow> error + cstate" where
  "enterRule t c kind st =
     (if kind \<in> {''BlockContext'', ''ContractDefinitionContext'', ''StructDefinitionContext'',
                  ''EnumDefinitionContext'', ''ImportDirectiveContext'',
                  ''FunctionCallArgumentsContext''} then enterBlock t c st
      else if kind = ''IfStatementContext'' then enterIfStatement t c st
      else if kind = ''WhileStatementContext'' then enterWhileStatement t c st
      else if kind = ''DoWhileStatementContext'' then enterDoWhileStatement t c st
      else if kind = ''ForStatementContext'' then enterForStatement t c st
      else if kind = ''SourceUnitContext'' then enterSourceUnit t c st
      else Inr st)"

definition exitRule :: "token list \<Rightarrow> string \<Rightarrow> cstate \<Rightarrow> cstate" where
  "exitRule toks kind st = (if kind = ''SourceUnitContext'' then exitSourceUnit toks st else st)"

text \<open>
  The state a hook leaves behind, whether it returns or raises: an assignment or a
  report made before the raise stays made. \<open>validate\<close>,
  \<open>validateIndentOfNestedElements\<close>, \<open>validateEndBracketIndent\<close> and \<open>enterSourceUnit\<close>
  raise only before their first write (every read that can fail comes before the
  loop over the nested elements, and before the report and the assignment at the end
  of \<open>validate\<close> and of \<open>validateEndBracketIndent\<close>), so a raise of one of them leaves
  the state it was called in. \<open>validateBlock\<close> checks the nested elements and then
  the closing bracket, and \<open>validateMultiple\<close> calls \<open>validate\<close> for one index after
  the other: a raise of a later call leaves what the earlier ones wrote.
\<close>

definition validateBlockCaught :: "node \<Rightarrow> ctx \<Rightarrow> vstate \<Rightarrow> vstate" where
  "validateBlockCaught t c st =
     (case nodeAt t c of
        None \<Rightarrow> st
      | Some n \<Rightarrow>
          if \<not> hasStartBracket n then st
          else (case isBracketsOnSameLine n of
                  Inl e \<Rightarrow> st
                | Inr True \<Rightarrow> st
                | Inr False \<Rightarrow>
                    (case validateIndentOfNestedElements t c n st of
                       Inl e \<Rightarrow> st
                     | Inr st1 \<Rightarrow>
                         (case validateEndBracketIndent t c n st1 of
                            Inl e \<Rightarrow> st1
                          | Inr st2 \<Rightarrow> st2))))"

fun validateMultipleCaught :: "node \<Rightarrow> ctx \<Rightarrow> int list \<Rightarrow> vstate \<Rightarrow> vstate" where
  "validateMultipleCaught t c [] st = st"
| "validateMultipleCaught t c (index # indexes) st =
     (case validate t c index st of
        Inl e \<Rightarrow> st
      | Inr st1 \<Rightarrow> validateMultipleCaught t c indexes st1)"

definition enterBlockCaught :: "node \<Rightarrow> ctx \<Rightarrow> cstate \<Rightarrow> cstate" where
  "enterBlockCaught t c st =
     (case st of (chk, w) \<Rightarrow>
        (case validateBlockCaught t c (blockValidator chk, w) of
           (v, w1) \<Rightarrow> (chk\<lparr>blockValidator := v\<rparr>, w1)))"

definition enterNestedCaught :: "node \<Rightarrow> ctx \<Rightarrow> int list \<Rightarrow> cstate \<Rightarrow> cstate" where
  "enterNestedCaught t c indexes st =
     (case st of (chk, w) \<Rightarrow>
        (case validateMultipleCaught t c indexes (nestedSingleLineValidator chk, w) of
           (v, w1) \<Rightarrow> (chk\<lparr>nestedSingleLineValidator := v\<rparr>, w1)))"

definition enterForStatementCaught :: "node \<Rightarrow> ctx \<Rightarrow> cstate \<Rightarrow> cstate" where
  "enterForStatementCaught t c st =
     (case nodeAt t c of
        None \<Rightarrow> st
      | Some n \<Rightarrow>
          (case children n of
             None \<Rightarrow> st
           | Some cs \<Rightarrow> enterNestedCaught t c [int (length cs) - 1] st))"

definition enterSourceUnitCaught :: "node \<Rightarrow> ctx \<Rightarrow> cstate \<Rightarrow> cstate" where
  "enterSourceUnitCaught t c st = (case enterSourceUnit t c st of Inl e \<Rightarrow> st | Inr st1 \<Rightarrow> st1)"

definition enterRuleCaught :: "node \<Rightarrow> ctx \<Rightarrow> string \<Rightarrow> cstate \<Rightarrow> cstate" where
  "enterRuleCaught t c kind st =
     (if kind \<in> {''BlockContext'', ''ContractDefinitionContext'', ''StructDefinitionContext'',
                  ''EnumDefinitionContext'', ''ImportDirectiveContext'',
                  ''FunctionCallArgumentsContext''} then enterBlockCaught t c st
      else if kind = ''IfStatementContext'' then enterNestedCaught t c [4, 6] st
      else if kind = ''WhileStatementContext'' then enterNestedCaught t c [4] st
      else if kind = ''DoWhileStatementContext'' then enterNestedCaught t c [1] st
      else if kind = ''ForStatementContext'' then enterForStatementCaught t c st
      else if kind = ''SourceUnitContext'' then enterSourceUnitCaught t c st
      else st)"

text \<open>\<open>walk t toks n c\<close> walks the subtree \<open>n\<close> that stands at position \<open>c\<close> of the tree
  \<open>t\<close>; \<open>walkChildren t toks c cs i\<close> walks the children \<open>cs\<close> of the node at \<open>c\<close>, the
  first of which has index \<open>i\<close>.\<close>

fun walk :: "node \<Rightarrow> token list \<Rightarrow> node \<Rightarrow> ctx \<Rightarrow> cstate \<Rightarrow> cstate"
  and walkChildren :: "node \<Rightarrow> token list \<Rightarrow> ctx \<Rightarrow> node list \<Rightarrow> nat \<Rightarrow> cstate \<Rightarrow> cstate" where
  "walk t toks (TerminalNode s tx) c st = st"
| "walk t toks (RuleContext nm sta sto tx cs) c st =
     exitRule toks nm (walkChildren t toks c cs 0 (enterRuleCaught t c nm st))"
| "walkChildren t toks c [] i st = st"
| "walkChildren t toks c (n # ns) i st =
     walkChildren t toks c ns (Suc i) (walk t toks n (c @ [i]) st)"

text \<open>One checking pass over a source unit: a new checker, an empty reporter, a tree
  without annotations. The constructor runs before the walk; when it raises there is no
  checker and no walk.\<close>

definition checkSource :: "jsval \<Rightarrow> node \<Rightarrow> token list \<Rightarrow> error + cstate" where
  "checkSource config t toks =
     (case newIndentChecker config of
        Inl e \<Rightarrow> Inl e
      | Inr chk \<Rightarrow> Inr (walk t toks t [] (chk, \<lparr>reporter = [], indentErrors = []\<rparr>)))"

section \<open>Definitions used to state the properties\<close>

subsection \<open>The resolver as the specification words it\<close>

text \<open>
  The specification's resolver: walk upward through the ancestors while each begins on
  the line of the original node; at the first one carrying a correction reproject the
  node's own column through it; otherwise return the node's own column. \<open>ancestors c\<close>
  are the ancestors of \<open>c\<close>, nearest first; \<open>onLine t l a\<close> says that the node at \<open>a\<close>
  begins on line \<open>l\<close>. The node itself heads the list of nodes that are looked at.
\<close>

fun ancestors :: "ctx \<Rightarrow> ctx list" where
  "ancestors c = (if c = [] then [] else butlast c # ancestors (butlast c))"

declare ancestors.simps [simp del]

definition onLine :: "node \<Rightarrow> int \<Rightarrow> ctx \<Rightarrow> bool" where
  "onLine t l a = (case nodeAt t a of None \<Rightarrow> False | Some an \<Rightarrow> lineOf an = l)"

definition specResolver :: "node \<Rightarrow> annotations \<Rightarrow> node \<Rightarrow> ctx \<Rightarrow> int" where
  "specResolver t ann n c =
     (case find (\<lambda>a. map_of ann a \<noteq> None) (c # takeWhile (onLine t (lineOf n)) (ancestors c)) of
        None \<Rightarrow> columnOf n
      | Some a \<Rightarrow>
          (case map_of ann a of
             None \<Rightarrow> columnOf n
           | Some e \<Rightarrow> columnOf n - errIndent e + errCorrectIndent e))"

subsection \<open>A worked example\<close>

text \<open>
  The parse tree and the token stream of the source text
  \<^verbatim>\<open>
  contract A {
        function f() {
          x;
          if (a)
             b;
        }
  }
  \<close>
  whose function is indented by six columns instead of four, and whose statement \<open>b;\<close>
  stands at column 11. Lines count from 1 and columns from 0.
\<close>

definition tok :: "int \<Rightarrow> int \<Rightarrow> token" where
  "tok l c = \<lparr>line = l, column = c, channel = 0, type = 1\<rparr>"

definition exprStatement :: "int \<Rightarrow> int \<Rightarrow> string \<Rightarrow> node" where
  "exprStatement l c x =
     RuleContext ''StatementContext'' (tok l c) (tok l (c + 1)) (x @ '';'')
       [RuleContext ''SimpleStatementContext'' (tok l c) (tok l (c + 1)) (x @ '';'')
          [RuleContext ''ExpressionStatementContext'' (tok l c) (tok l (c + 1)) (x @ '';'')
             [RuleContext ''ExpressionContext'' (tok l c) (tok l c) x [TerminalNode (tok l c) x],
              TerminalNode (tok l (c + 1)) '';'']]]"

definition exampleIfChildren :: "node list" where
  "exampleIfChildren =
     [TerminalNode (tok 4 8) ''if'',
      TerminalNode (tok 4 11) ''('',
      RuleContext ''ExpressionContext'' (tok 4 12) (tok 4 12) ''a'' [TerminalNode (tok 4 12) ''a''],
      TerminalNode (tok 4 13) '')'',
      exprStatement 5 11 ''b'']"

definition exampleIf :: node where
  "exampleIf =
     RuleContext ''StatementContext'' (tok 4 8) (tok 5 12) ''if(a)b;''
       [RuleContext ''IfStatementContext'' (tok 4 8) (tok 5 12) ''if(a)b;'' exampleIfChildren]"

definition exampleBlock :: node where
  "exampleBlock =
     RuleContext ''BlockContext'' (tok 2 19) (tok 6 6) ''{x;if(a)b;}''
       [TerminalNode (tok 2 19) ''{'',
        exprStatement 3 8 ''x'',
        exampleIf,
        TerminalNode (tok 6 6) ''}'']"

definition exampleFunction :: node where
  "exampleFunction =
     RuleContext ''ContractPartContext'' (tok 2 6) (tok 6 6) ''functionf(){x;if(a)b;}''
       [RuleContext ''FunctionDefinitionContext'' (tok 2 6) (tok 6 6) ''functionf(){x;if(a)b;}''
          [TerminalNode (tok 2 6) ''function'',
           RuleContext ''IdentifierContext'' (tok 2 15) (tok 2 15) ''f'' [TerminalNode (tok 2 15) ''f''],
           RuleContext ''ParameterListContext'' (tok 2 16) (tok 2 17) ''()''
             [TerminalNode (tok 2 16) ''('', TerminalNode (tok 2 17) '')''],
           RuleContext ''ModifierListContext'' (tok 2 19) (tok 2 17) '''' [],
           exampleBlock]]"

definition exampleTree :: node where
  "exampleTree =
     RuleContext ''SourceUnitContext'' (tok 1 0) (tok 8 0) ''contractA{functionf(){x;if(a)b;}}<EOF>''
       [RuleContext ''ContractDefinitionContext'' (tok 1 0) (tok 7 0) ''contractA{functionf(){x;if(a)b;}}''
          [TerminalNode (tok 1 0) ''contract'',
           RuleContext ''IdentifierContext'' (tok 1 9) (tok 1 9) ''A'' [TerminalNode (tok 1 9) ''A''],
           TerminalNode (tok 1 11) ''{'',
           exampleFunction,
           TerminalNode (tok 7 0) ''}''],
        TerminalNode \<lparr>line = 8, column = 0, channel = 0, type = -1\<rparr> ''<EOF>'']"

definition exampleTokens :: "token list" where
  "exampleTokens =
     [tok 1 0, tok 1 9, tok 1 11,
      tok 2 6, tok 2 15, tok 2 16, tok 2 17, tok 2 19,
      tok 3 8, tok 3 9,
      tok 4 8, tok 4 11, tok 4 12, tok 4 13,
      tok 5 11, tok 5 12,
      tok 6 6,
      tok 7 0,
      \<lparr>line = 8, column = 0, channel = 0, type = -1\<rparr>]"

definition exampleConfig :: jsval where
  "exampleConfig = JObject [(''rules'', JObject [(''indent'', JArray [JString ''error'', JNumber 4])])]"

subsection \<open>Corrections as the validators record them\<close>

text \<open>
  A correction is \<open>recorded\<close> for a node when its \<open>indent\<close> property is that node's
  own column: both places that assign \<open>indentError\<close> store \<open>columnOf\<close> of the node they
  assign to. \<open>wellRecorded\<close> says so of every correction in the tree.
\<close>

definition recorded :: "node \<Rightarrow> ctx \<times> indentError \<Rightarrow> bool" where
  "recorded t w = (case nodeAt t (fst w) of None \<Rightarrow> False | Some n \<Rightarrow> errIndent (snd w) = columnOf n)"

definition wellRecorded :: "node \<Rightarrow> annotations \<Rightarrow> bool" where
  "wellRecorded t ann = list_all (recorded t) ann"

text \<open>
  \<open>logExt t K ann ann'\<close>: the annotations \<open>ann'\<close> are \<open>ann\<close> with new corrections put
  in front, on nodes of \<open>K\<close>, no node twice, each recorded for its node.
  \<open>childWrites t c I\<close> is the same for the children of \<open>c\<close> with an index in \<open>I\<close>.
\<close>

definition childWrites :: "node \<Rightarrow> ctx \<Rightarrow> nat set \<Rightarrow> annotations \<Rightarrow> annotations \<Rightarrow> bool" where
  "childWrites t c I ann ann' =
     (\<exists>W. ann' = W @ ann \<and> distinct (map fst W) \<and> fst ` set W \<subseteq> (\<lambda>i. c @ [i]) ` I
          \<and> list_all (recorded t) W)"

definition logExt :: "node \<Rightarrow> ctx set \<Rightarrow> annotations \<Rightarrow> annotations \<Rightarrow> bool" where
  "logExt t K ann ann' =
     (\<exists>W. ann' = W @ ann \<and> distinct (map fst W) \<and> fst ` set W \<subseteq> K \<and> list_all (recorded t) W)"

text \<open>The correction the block validator attaches to the function of the example.\<close>

definition exampleAnnotations :: annotations where
  "exampleAnnotations = [([0, 3], \<lparr>errIndent = 6, errCorrectIndent = 4\<rparr>)]"

text \<open>The block validator's state after it has reported the function of the example.\<close>

definition exampleState :: vstate where
  "exampleState =
     (\<lparr>indent = 4, indentUnit = ''spaces'', linesWithError = [2]\<rparr>,
      \<lparr>reporter = [], indentErrors = exampleAnnotations\<rparr>)"

text \<open>The block of \<^verbatim>\<open>if (x) {   y(); }\<close>: both braces on line 1, the statement
  inside at an arbitrary column.\<close>

definition singleLineBlock :: node where
  "singleLineBlock =
     RuleContext ''BlockContext'' (tok 1 7) (tok 1 16) ''{y();}''
       [TerminalNode (tok 1 7) ''{'',
        RuleContext ''StatementContext'' (tok 1 11) (tok 1 14) ''y();''
          [RuleContext ''SimpleStatementContext'' (tok 1 11) (tok 1 14) ''y();''
             [TerminalNode (tok 1 11) ''y'', TerminalNode (tok 1 12) ''('',
              TerminalNode (tok 1 13) '')'', TerminalNode (tok 1 14) '';'']],
        TerminalNode (tok 1 16) ''}'']"

text \<open>
  The import directive
  \<^verbatim>\<open>
  import {
      a
  } from <x>;
  \<close>
  (the path stands for a string literal). Its last child is the semicolon, its fourth
  child the closing brace.
\<close>

definition exampleImport :: node where
  "exampleImport =
     RuleContext ''ImportDirectiveContext'' (tok 1 0) (tok 3 10) ''import{a}from<x>;''
       [TerminalNode (tok 1 0) ''import'',
        TerminalNode (tok 1 7) ''{'',
        RuleContext ''ImportDeclarationContext'' (tok 2 4) (tok 2 4) ''a''
          [RuleContext ''IdentifierContext'' (tok 2 4) (tok 2 4) ''a'' [TerminalNode (tok 2 4) ''a'']],
        TerminalNode (tok 3 0) ''}'',
        TerminalNode (tok 3 2) ''from'',
        TerminalNode (tok 3 7) ''<x>'',
        TerminalNode (tok 3 10) '';'']"

text \<open>
  The same directive with its closing brace two columns to the right,
  \<^verbatim>\<open>
  import {
      a
    } from <x>;
  \<close>
  and the directive with both braces on its first line,
  \<^verbatim>\<open>
  import {a}
      from <x>;
  \<close>
\<close>

definition exampleImportMisplaced :: node where
  "exampleImportMisplaced =
     RuleContext ''ImportDirectiveContext'' (tok 1 0) (tok 3 12) ''import{a}from<x>;''
       [TerminalNode (tok 1 0) ''import'',
        TerminalNode (tok 1 7) ''{'',
        RuleContext ''ImportDeclarationContext'' (tok 2 4) (tok 2 4) ''a''
          [RuleContext ''IdentifierContext'' (tok 2 4) (tok 2 4) ''a'' [TerminalNode (tok 2 4) ''a'']],
        TerminalNode (tok 3 2) ''}'',
        TerminalNode (tok 3 4) ''from'',
        TerminalNode (tok 3 9) ''<x>'',
        TerminalNode (tok 3 12) '';'']"

definition exampleImportOneLine :: node where
  "exampleImportOneLine =
     RuleContext ''ImportDirectiveContext'' (tok 1 0) (tok 2 12) ''import{a}from<x>;''
       [TerminalNode (tok 1 0) ''import'',
        TerminalNode (tok 1 7) ''{'',
        RuleContext ''ImportDeclarationContext'' (tok 1 8) (tok 1 8) ''a''
          [RuleContext ''IdentifierContext'' (tok 1 8) (tok 1 8) ''a'' [TerminalNode (tok 1 8) ''a'']],
        TerminalNode (tok 1 9) ''}'',
        TerminalNode (tok 2 4) ''from'',
        TerminalNode (tok 2 9) ''<x>'',
        TerminalNode (tok 2 12) '';'']"

text \<open>A validator that has reported nothing yet, for an indent of four spaces.\<close>

definition freshState :: vstate where
  "freshState =
     (\<lparr>indent = 4, indentUnit = ''spaces'', linesWithError = []\<rparr>,
      \<lparr>reporter = [], indentErrors = []\<rparr>)"

text \<open>
  The tree of a source unit whose import directive breaks off after its first name,
  \<^verbatim>\<open>
  import {a
  contract A {
        uint x;
  }
  \<close>
  The last child of the directive is the declaration of \<open>a\<close>, a rule context, which has
  no \<open>symbol\<close>. The state variable of the contract stands at column 6.
\<close>

definition exampleTruncated :: node where
  "exampleTruncated =
     RuleContext ''SourceUnitContext'' (tok 1 0) (tok 5 0) ''import{acontractA{uintx;}<EOF>''
       [RuleContext ''ImportDirectiveContext'' (tok 1 0) (tok 1 8) ''import{a''
          [TerminalNode (tok 1 0) ''import'',
           TerminalNode (tok 1 7) ''{'',
           RuleContext ''ImportDeclarationContext'' (tok 1 8) (tok 1 8) ''a''
             [RuleContext ''IdentifierContext'' (tok 1 8) (tok 1 8) ''a'' [TerminalNode (tok 1 8) ''a'']]],
        RuleContext ''ContractDefinitionContext'' (tok 2 0) (tok 4 0) ''contractA{uintx;}''
          [TerminalNode (tok 2 0) ''contract'',
           RuleContext ''IdentifierContext'' (tok 2 9) (tok 2 9) ''A'' [TerminalNode (tok 2 9) ''A''],
           TerminalNode (tok 2 11) ''{'',
           RuleContext ''ContractPartContext'' (tok 3 6) (tok 3 12) ''uintx;''
             [RuleContext ''StateVariableDeclarationContext'' (tok 3 6) (tok 3 12) ''uintx;''
                [RuleContext ''TypeNameContext'' (tok 3 6) (tok 3 6) ''uint''
                   [RuleContext ''ElementaryTypeNameContext'' (tok 3 6) (tok 3 6) ''uint''
                      [TerminalNode (tok 3 6) ''uint'']],
                 RuleContext ''IdentifierContext'' (tok 3 11) (tok 3 11) ''x'' [TerminalNode (tok 3 11) ''x''],
                 TerminalNode (tok 3 12) '';'']],
           TerminalNode (tok 4 0) ''}''],
        TerminalNode \<lparr>line = 5, column = 0, channel = 0, type = -1\<rparr> ''<EOF>'']"

definition truncatedTokens :: "token list" where
  "truncatedTokens =
     [tok 1 0, tok 1 7, tok 1 8,
      tok 2 0, tok 2 9, tok 2 11,
      tok 3 6, tok 3 11, tok 3 12,
      tok 4 0,
      \<lparr>line = 5, column = 0, channel = 0, type = -1\<rparr>]"

text \<open>
  An \<open>if\<close> statement whose \<open>else\<close> branch is missing,
  \<^verbatim>\<open>
  if (a)
             b;
  else
  \<close>
  in the statement that holds it: the child in slot 6 is the terminal the parser puts
  in for what is missing, which has no \<open>children\<close>. The statement \<open>b;\<close> stands at
  column 11 on line 5.
\<close>

definition exampleIfNoElse :: node where
  "exampleIfNoElse =
     RuleContext ''StatementContext'' (tok 4 8) (tok 6 8) ''if(a)b;else''
       [RuleContext ''IfStatementContext'' (tok 4 8) (tok 6 8) ''if(a)b;else''
          (exampleIfChildren @
           [TerminalNode (tok 6 8) ''else'',
            TerminalNode (tok 6 12) ''<missing statement>''])]"

subsection \<open>What a validator does when it finds a wrong column\<close>

text \<open>
  \<open>reportAndAttach item l col required st\<close> is the state after a report at line \<open>l\<close>
  and column \<open>col\<close> naming the required and the found indent, the line \<open>l\<close> recorded
  in \<open>linesWithError\<close>, and the correction \<open>(col, required)\<close> attached to \<open>item\<close>.
\<close>

definition reportAndAttach :: "ctx \<Rightarrow> int \<Rightarrow> int \<Rightarrow> int \<Rightarrow> vstate \<Rightarrow> vstate" where
  "reportAndAttach item l col required st =
     (fst st\<lparr>linesWithError := linesWithError (fst st) @ [l]\<rparr>,
      (snd st)\<lparr>reporter := reporter (snd st) @
                   [\<lparr>atLine = l, atColumn = col, ruleId = ''indent'',
                     message = [Str ''Expected indentation of '', Num required, Str '' '',
                                Str (indentUnit (fst st)), Str '' but found '', Num col]\<rparr>],
                indentErrors := (item, \<lparr>errIndent = col, errCorrectIndent = required\<rparr>)
                                  # indentErrors (snd st)\<rparr>)"

subsection \<open>The lines of the token stream\<close>

text \<open>
  \<open>significant toks\<close> are the tokens the final pass looks at (channel 0, type code not
  negative); \<open>lineIndent toks l\<close> is the minimal column among those on line \<open>l\<close>;
  \<open>baseReport l col\<close> is the report \<open>Indentation is incorrect\<close> at line \<open>l\<close>, column
  \<open>col\<close>.
\<close>

definition significant :: "token list \<Rightarrow> token list" where
  "significant toks = filter (\<lambda>i. channel i = 0 \<and> type i \<ge> 0) toks"

definition lineIndent :: "token list \<Rightarrow> int \<Rightarrow> int" where
  "lineIndent toks l = Min (set (map column (filter (\<lambda>tk. line tk = l) (significant toks))))"

definition baseReport :: "int \<Rightarrow> int \<Rightarrow> report" where
  "baseReport l col =
     \<lparr>atLine = l, atColumn = col, ruleId = ''indent'', message = [Str ''Indentation is incorrect'']\<rparr>"

text \<open>A checker for the example in which the validators have recorded lines 2 and 5.\<close>

definition exampleChecker :: IndentChecker where
  "exampleChecker =
     \<lparr>blockValidator = \<lparr>indent = 4, indentUnit = ''spaces'', linesWithError = [2]\<rparr>,
      nestedSingleLineValidator = \<lparr>indent = 4, indentUnit = ''spaces'', linesWithError = [5]\<rparr>,
      baseIndentMultiplicityValidator = \<lparr>baseIndent = 4, firstIndent = []\<rparr>\<rparr>"

subsection \<open>Configurations\<close>

text \<open>
  \<open>isNumber\<close> is lodash's test. A value of \<open>rules.indent[1]\<close> is \<open>usable\<close> when it is
  the string \<open>tabs\<close> or a number. An entry \<open>rules.indent\<close> is malformed when it is not
  a list of two elements, or when its second element is not usable; an object passes for
  a list of two elements when its \<open>length\<close> property is 2, as it does in the code's
  test \<open>rules.indent.length === 2\<close>. \<open>checkerWith i u\<close> is the checker the constructor
  builds for the indent unit size \<open>i\<close> and the unit name \<open>u\<close>.
\<close>

fun isNumber :: "jsval \<Rightarrow> bool" where
  "isNumber (JNumber k) = True"
| "isNumber v = False"

definition usable :: "jsval \<Rightarrow> bool" where
  "usable v = (v = JString ''tabs'' \<or> isNumber v)"

fun malformedEntry :: "jsval \<Rightarrow> bool" where
  "malformedEntry (JArray xs) = (length xs \<noteq> 2 \<or> \<not> usable (xs ! 1))"
| "malformedEntry (JObject kvs) =
     (map_of kvs ''length'' \<noteq> Some (JNumber 2)
      \<or> (case map_of kvs ''1'' of None \<Rightarrow> True | Some v \<Rightarrow> \<not> usable v))"
| "malformedEntry v = True"

definition checkerWith :: "int \<Rightarrow> string \<Rightarrow> IndentChecker" where
  "checkerWith i u =
     \<lparr>blockValidator = \<lparr>indent = i, indentUnit = u, linesWithError = []\<rparr>,
      nestedSingleLineValidator = \<lparr>indent = i, indentUnit = u, linesWithError = []\<rparr>,
      baseIndentMultiplicityValidator = \<lparr>baseIndent = i, firstIndent = []\<rparr>\<rparr>"

text \<open>Configurations: tabs; a word in place of the size; an entry of three elements.\<close>

definition tabsConfig :: jsval where
  "tabsConfig = JObject [(''rules'', JObject [(''indent'', JArray [JString ''error'', JString ''tabs''])])]"

definition wordConfig :: jsval where
  "wordConfig = JObject [(''rules'', JObject [(''indent'', JArray [JString ''error'', JString ''four''])])]"

definition longConfig :: jsval where
  "longConfig =
     JObject [(''rules'', JObject [(''indent'', JArray [JString ''error'', JString ''tabs'', JNumber 8])])]"

subsection \<open>The loops under a budget of iterations\<close>

text \<open>
  The three loops of the resolver and of \<open>firstNodeOfLine\<close> once more, each with a budget:
  every pass through the body of the \<open>do ... while\<close> of \<open>correctIndentOf\<close>, every test
  of the condition of the \<open>while\<close> of \<open>firstNodeOfLine\<close>, and every call of
  \<open>firstNodeOfLine\<close> takes one unit, and \<open>None\<close> is the budget running out before the
  loop has returned. The bodies are those of \<open>correctIndentOf_loop\<close>, \<open>walkUp\<close> and
  \<open>firstNodeOfLine\<close>; the backward scan over the earlier siblings is the \<open>for\<close> loop
  \<open>scanBack\<close>, which counts its index down to 0.
\<close>

fun correctIndentOf_loop_fuel :: "nat \<Rightarrow> node \<Rightarrow> annotations \<Rightarrow> int \<Rightarrow> int \<Rightarrow> ctx \<Rightarrow> (error + int) option" where
  "correctIndentOf_loop_fuel 0 t ann l curIndent curCtx = None"
| "correctIndentOf_loop_fuel (Suc k) t ann l curIndent curCtx =
     (case map_of ann curCtx of
        Some e \<Rightarrow> Some (Inr (correctIndent curIndent e))
      | None \<Rightarrow>
          (case parentCtx curCtx of
             None \<Rightarrow> Some (Inr curIndent)
           | Some par \<Rightarrow>
               (case nodeAt t par of
                  None \<Rightarrow> Some (Inl TypeError)
                | Some pn \<Rightarrow>
                    if l = lineOf pn then correctIndentOf_loop_fuel k t ann l curIndent par
                    else Some (Inr curIndent))))"

fun walkUp_fuel :: "nat \<Rightarrow> node \<Rightarrow> ctx \<Rightarrow> (error + ctx) option" where
  "walkUp_fuel 0 t rootCtx = None"
| "walkUp_fuel (Suc k) t rootCtx =
     (case parentCtx rootCtx of
        None \<Rightarrow> Some (Inr rootCtx)
      | Some par \<Rightarrow>
          (case (nodeAt t rootCtx, nodeAt t par) of
             (Some rn, Some pn) \<Rightarrow>
               (case (start rn, start pn) of
                  (Some rs, Some ps) \<Rightarrow>
                    if line rs = line ps \<and> constructorName pn \<noteq> ''SourceUnitContext''
                    then walkUp_fuel k t par
                    else Some (Inr rootCtx)
                | _ \<Rightarrow> Some (Inl TypeError))
           | _ \<Rightarrow> Some (Inl TypeError)))"

fun firstNodeOfLine_fuel :: "nat \<Rightarrow> node \<Rightarrow> ctx \<Rightarrow> (error + ctx) option" where
  "firstNodeOfLine_fuel 0 t c = None"
| "firstNodeOfLine_fuel (Suc k) t c =
     (case walkUp_fuel (Suc (length c)) t c of
        None \<Rightarrow> None
      | Some (Inl e) \<Rightarrow> Some (Inl e)
      | Some (Inr rootCtx) \<Rightarrow>
          (case siblingScan t rootCtx of
             Inl e \<Rightarrow> Some (Inl e)
           | Inr resultNode \<Rightarrow>
               (case (nodeAt t c, nodeAt t resultNode) of
                  (Some n, Some r) \<Rightarrow>
                    if lineOf n \<noteq> lineOf r then firstNodeOfLine_fuel k t resultNode
                    else Some (Inr resultNode)
                | _ \<Rightarrow> Some (Inl TypeError))))"

section \<open>Lemmas\<close>

lemma ancestors_Nil: "ancestors [] = []"
  by (simp add: ancestors.simps)

lemma ancestors_snoc: "ancestors (p @ [i]) = p # ancestors p"
  by (subst ancestors.simps) simp

lemma loop_Some:
  "map_of ann c = Some e \<Longrightarrow> correctIndentOf_loop t ann l ci c = Inr (correctIndent ci e)"
  by (subst correctIndentOf_loop.simps) simp

lemma loop_Nil:
  "map_of ann [] = None \<Longrightarrow> correctIndentOf_loop t ann l ci [] = Inr ci"
  by (subst correctIndentOf_loop.simps) (simp add: parentCtx_def)

lemma loop_snoc:
  "map_of ann (p @ [i]) = None \<Longrightarrow>
   correctIndentOf_loop t ann l ci (p @ [i]) =
     (case nodeAt t p of
        None \<Rightarrow> Inl TypeError
      | Some pn \<Rightarrow> if l = lineOf pn then correctIndentOf_loop t ann l ci p else Inr ci)"
  by (subst correctIndentOf_loop.simps) (simp add: parentCtx_def)

lemma nodeAt_prefix_valid:
  "nodeAt t (p @ q) \<noteq> None \<Longrightarrow> nodeAt t p \<noteq> None"
proof (induction q rule: rev_induct)
  case Nil
  then show ?case by simp
next
  case (snoc x xs)
  then show ?case
    using nodeAt_snoc[of t "p @ xs" x] by (auto split: option.splits)
qed

lemma loop_spec:
  "nodeAt t c \<noteq> None \<Longrightarrow>
   correctIndentOf_loop t ann l ci c =
     Inr (case find (\<lambda>a. map_of ann a \<noteq> None) (c # takeWhile (onLine t l) (ancestors c)) of
            None \<Rightarrow> ci
          | Some a \<Rightarrow> (case map_of ann a of None \<Rightarrow> ci | Some e \<Rightarrow> correctIndent ci e))"
proof (induction c rule: rev_induct)
  case Nil
  then show ?case
    by (cases "map_of ann []") (simp_all add: loop_Nil loop_Some ancestors_Nil)
next
  case (snoc i p)
  have vp: "nodeAt t p \<noteq> None" using snoc.prems by (rule nodeAt_prefix_valid)
  show ?case
  proof (cases "map_of ann (p @ [i])")
    case (Some e)
    then show ?thesis by (simp add: loop_Some)
  next
    case None
    then show ?thesis
      using vp snoc.IH[OF vp]
      by (auto simp: loop_snoc ancestors_snoc onLine_def split: option.splits)
  qed
qed

lemma correctIndentOf_spec:
  "nodeAt t c = Some n \<Longrightarrow> correctIndentOf t ann c = Inr (specResolver t ann n c)"
  by (simp add: correctIndentOf_def specResolver_def loop_spec correctIndent_def split: option.splits)

lemma correctIndentOf_self:
  "nodeAt t c = Some n \<Longrightarrow> map_of ann c = Some e \<Longrightarrow>
   correctIndentOf t ann c = Inr (columnOf n - errIndent e + errCorrectIndent e)"
  by (simp add: correctIndentOf_def loop_Some correctIndent_def)

lemma childWrites_refl: "childWrites t c I ann ann"
  by (auto simp: childWrites_def)

lemma childWrites_mono: "childWrites t c I ann ann' \<Longrightarrow> I \<subseteq> J \<Longrightarrow> childWrites t c J ann ann'"
proof -
  assume a: "childWrites t c I ann ann'" and s: "I \<subseteq> J"
  from a obtain W where W: "ann' = W @ ann" "distinct (map fst W)"
    "fst ` set W \<subseteq> (\<lambda>i. c @ [i]) ` I" "list_all (recorded t) W"
    unfolding childWrites_def by blast
  have "fst ` set W \<subseteq> (\<lambda>i. c @ [i]) ` J" using W(3) s by blast
  with W show ?thesis unfolding childWrites_def by blast
qed

lemma childWrites_trans:
  assumes "childWrites t c I ann ann1" "childWrites t c J ann1 ann2" "I \<inter> J = {}"
  shows "childWrites t c (I \<union> J) ann ann2"
proof -
  from assms(1) obtain W1 where W1: "ann1 = W1 @ ann" "distinct (map fst W1)"
    "fst ` set W1 \<subseteq> (\<lambda>i. c @ [i]) ` I" "list_all (recorded t) W1"
    unfolding childWrites_def by blast
  from assms(2) obtain W2 where W2: "ann2 = W2 @ ann1" "distinct (map fst W2)"
    "fst ` set W2 \<subseteq> (\<lambda>i. c @ [i]) ` J" "list_all (recorded t) W2"
    unfolding childWrites_def by blast
  have "inj (\<lambda>i. c @ [i])" by (simp add: inj_on_def)
  then have "(\<lambda>i. c @ [i]) ` J \<inter> (\<lambda>i. c @ [i]) ` I = {}"
    using assms(3) by (simp add: image_Int[symmetric] Int_commute)
  moreover have "fst ` set W2 \<inter> fst ` set W1 \<subseteq> (\<lambda>i. c @ [i]) ` J \<inter> (\<lambda>i. c @ [i]) ` I"
    using W2(3) W1(3) by (rule Int_mono)
  ultimately have disj: "fst ` set W2 \<inter> fst ` set W1 = {}"
    by simp
  have a: "ann2 = (W2 @ W1) @ ann" using W1(1) W2(1) by simp
  have b: "distinct (map fst (W2 @ W1))" using W1(2) W2(2) disj by simp
  have c: "fst ` set (W2 @ W1) \<subseteq> (\<lambda>i. c @ [i]) ` (I \<union> J)"
    using W1(3) W2(3) by (simp add: image_Un) blast
  have d: "list_all (recorded t) (W2 @ W1)" using W1(4) W2(4) by simp
  show ?thesis unfolding childWrites_def
    by (rule exI[of _ "W2 @ W1"]) (intro conjI a b c d)
qed

lemma makeReport_indentErrors [simp]:
  "indentErrors (snd (makeReportCorrectLine l col r st)) = indentErrors (snd st)"
  by (cases st) (simp add: makeReportCorrectLine_def)

lemma validateNode_writes:
  assumes "nodeAt t (c @ [i]) = Some n"
  shows "childWrites t c {i} (indentErrors (snd st))
           (indentErrors (snd (validateNode r (c @ [i]) l (columnOf n) st)))"
proof (cases "columnOf n = r")
  case True
  then show ?thesis by (simp add: validateNode_def childWrites_refl)
next
  case False
  have "indentErrors (snd (validateNode r (c @ [i]) l (columnOf n) st))
        = [(c @ [i], \<lparr>errIndent = columnOf n, errCorrectIndent = r\<rparr>)] @ indentErrors (snd st)"
    using False makeReport_indentErrors[of l "columnOf n" r st]
    by (cases "makeReportCorrectLine l (columnOf n) r st") (simp add: validateNode_def)
  then show ?thesis
    unfolding childWrites_def using assms
    by (intro exI[of _ "[(c @ [i], \<lparr>errIndent = columnOf n, errCorrectIndent = r\<rparr>)]"])
       (simp add: recorded_def)
qed

lemma fold_childWrites:
  assumes "\<And>i st. i \<in> set js \<Longrightarrow>
             childWrites t c {i} (indentErrors (snd st)) (indentErrors (snd (f i st)))"
    and "distinct js"
  shows "childWrites t c (set js) (indentErrors (snd st)) (indentErrors (snd (fold f js st)))"
  using assms
proof (induction js arbitrary: st)
  case Nil
  then show ?case by (simp add: childWrites_refl)
next
  case (Cons j js)
  have 1: "childWrites t c {j} (indentErrors (snd st)) (indentErrors (snd (f j st)))"
    using Cons.prems(1) by simp
  have 2: "childWrites t c (set js) (indentErrors (snd (f j st)))
             (indentErrors (snd (fold f js (f j st))))"
    using Cons.IH[of "f j st"] Cons.prems by simp
  have "childWrites t c ({j} \<union> set js) (indentErrors (snd st))
          (indentErrors (snd (fold f js (f j st))))"
    using childWrites_trans[OF 1 2] Cons.prems(2) by simp
  then show ?case by simp
qed

lemma indexOf_bound: "indexOf xs x < int (length xs)"
  by (induction xs) (auto simp: Let_def)

lemma indexOf_lower: "- 1 \<le> indexOf xs x"
  by (induction xs) (auto simp: Let_def)

lemma nestedStep_writes:
  assumes "nodeAt t c = Some n" "children n = Some cs" "i < length cs"
  shows "childWrites t c {i} (indentErrors (snd st))
           (indentErrors (snd (nestedStep (validateNode r) c cs i st)))"
proof -
  have v: "nodeAt t (c @ [i]) = Some (cs ! i)"
    using assms by (simp add: nodeAt_snoc)
  show ?thesis
    using validateNode_writes[OF v, where r=r and st=st and l="lineOf (cs ! i)"]
    by (simp add: nestedStep_def Let_def childWrites_refl split: option.splits)
qed

lemma forEachNestedNode_writes:
  assumes "nodeAt t c = Some n" "forEachNestedNode (validateNode r) c n st = Inr st'"
  shows "childWrites t c UNIV (indentErrors (snd st)) (indentErrors (snd st'))"
proof -
  from assms(2) obtain cs where cs: "children n = Some cs"
    and st': "st' = fold (nestedStep (validateNode r) c cs)
                 [nat (indexOf (map getText cs) ''{'' + 1) ..< nat (indexOf (map getText cs) ''}'')] st"
    by (auto simp: forEachNestedNode_def split: option.splits)
  let ?js = "[nat (indexOf (map getText cs) ''{'' + 1) ..< nat (indexOf (map getText cs) ''}'')]"
  have b: "\<And>i. i \<in> set ?js \<Longrightarrow> i < length cs"
    using indexOf_bound[of "map getText cs" "''}''"] by auto
  have "childWrites t c (set ?js) (indentErrors (snd st))
          (indentErrors (snd (fold (nestedStep (validateNode r) c cs) ?js st)))"
    by (rule fold_childWrites) (use b nestedStep_writes[OF assms(1) cs] in auto)
  then show ?thesis unfolding st' by (rule childWrites_mono) simp
qed

lemma validateEndBracketIndent_indentErrors:
  "validateEndBracketIndent t c n st = Inr st' \<Longrightarrow> indentErrors (snd st') = indentErrors (snd st)"
  by (auto simp: validateEndBracketIndent_def split: sum.splits if_splits)

lemma validateBlock_writes:
  assumes "validateBlock t c st = Inr st'"
  shows "childWrites t c UNIV (indentErrors (snd st)) (indentErrors (snd st'))"
proof -
  from assms obtain n where n: "nodeAt t c = Some n"
    by (auto simp: validateBlock_def split: option.splits)
  show ?thesis
  proof (cases "st' = st")
    case True
    then show ?thesis by (simp add: childWrites_refl)
  next
    case False
    with assms n obtain st1 where 1: "validateIndentOfNestedElements t c n st = Inr st1"
      and 2: "validateEndBracketIndent t c n st1 = Inr st'"
      by (auto simp: validateBlock_def split: sum.splits if_splits bool.splits)
    from 1 obtain a where "forEachNestedNode (validateNode (a + indent (fst st))) c n st = Inr st1"
      by (auto simp: validateIndentOfNestedElements_def split: sum.splits)
    then have "childWrites t c UNIV (indentErrors (snd st)) (indentErrors (snd st1))"
      by (rule forEachNestedNode_writes[OF n])
    then show ?thesis using validateEndBracketIndent_indentErrors[OF 2] by simp
  qed
qed

lemma at_Some: "at xs i = Some x \<Longrightarrow> 0 \<le> i \<and> nat i < length xs \<and> x = xs ! nat i"
  by (auto simp: at_def split: if_splits)

lemma validate_writes:
  assumes "validate t c index st = Inr st'"
  shows "childWrites t c {nat index} (indentErrors (snd st)) (indentErrors (snd st'))"
proof (cases "st' = st")
  case True
  then show ?thesis by (simp add: childWrites_refl)
next
  case False
  from assms False obtain nm startTok sto tx cs statement par r first rest v w where
      n: "nodeAt t c = Some (RuleContext nm startTok sto tx cs)"
    and s: "at cs index = Some statement"
    and w: "makeReportCorrectLine (lineOf statement) (columnOf statement) (r + indent (fst st)) st = (v, w)"
    and st': "st' = (v, w\<lparr>indentErrors := (c @ [nat index],
                 \<lparr>errIndent = columnOf statement, errCorrectIndent = r + indent (fst st)\<rparr>) # indentErrors w\<rparr>)"
    by (auto simp: validate_def Let_def split: option.splits node.splits if_splits sum.splits list.splits prod.splits)
  have v: "nodeAt t (c @ [nat index]) = Some statement"
    using n at_Some[OF s] by (simp add: nodeAt_snoc)
  have "indentErrors w = indentErrors (snd st)"
    using makeReport_indentErrors[of "lineOf statement" "columnOf statement" "r + indent (fst st)" st] w
    by simp
  then have "indentErrors (snd st') =
     [(c @ [nat index], \<lparr>errIndent = columnOf statement, errCorrectIndent = r + indent (fst st)\<rparr>)]
       @ indentErrors (snd st)"
    using st' by simp
  then show ?thesis
    unfolding childWrites_def using v
    by (intro exI[of _ "[(c @ [nat index], \<lparr>errIndent = columnOf statement, errCorrectIndent = r + indent (fst st)\<rparr>)]"])
       (simp add: recorded_def)
qed

lemma validateMultiple_writes:
  assumes "validateMultiple t c indexes st = Inr st'" "distinct (map nat indexes)"
  shows "childWrites t c (nat ` set indexes) (indentErrors (snd st)) (indentErrors (snd st'))"
  using assms
proof (induction indexes arbitrary: st)
  case Nil
  then show ?case by (simp add: childWrites_refl)
next
  case (Cons i idxs)
  from Cons.prems(1) obtain st1 where 1: "validate t c i st = Inr st1"
    and 2: "validateMultiple t c idxs st1 = Inr st'"
    by (auto split: sum.splits)
  have a: "childWrites t c {nat i} (indentErrors (snd st)) (indentErrors (snd st1))"
    using 1 by (rule validate_writes)
  have b: "childWrites t c (nat ` set idxs) (indentErrors (snd st1)) (indentErrors (snd st'))"
    using Cons.IH[OF 2] Cons.prems(2) by simp
  have "childWrites t c ({nat i} \<union> nat ` set idxs) (indentErrors (snd st)) (indentErrors (snd st'))"
    using childWrites_trans[OF a b] Cons.prems(2) by auto
  then show ?case by simp
qed

lemma enterNested_writes:
  assumes "enterNested t c indexes st = Inr st'" "distinct (map nat indexes)"
  shows "childWrites t c UNIV (indentErrors (snd st)) (indentErrors (snd st'))"
proof -
  obtain chk w where st: "st = (chk, w)" by (cases st)
  from assms(1) st obtain v w1 where
    1: "validateMultiple t c indexes (nestedSingleLineValidator chk, w) = Inr (v, w1)"
    and st': "st' = (chk\<lparr>nestedSingleLineValidator := v\<rparr>, w1)"
    by (auto simp: enterNested_def split: sum.splits)
  have "childWrites t c (nat ` set indexes) (indentErrors w) (indentErrors w1)"
    using validateMultiple_writes[OF 1 assms(2)] by simp
  then show ?thesis unfolding st st' by (simp add: childWrites_mono)
qed

lemma sourceUnitStep_writes:
  assumes "nodeAt t c = Some n" "children n = Some cs" "i < length cs"
  shows "childWrites t c {i} (indentErrors (snd st))
           (indentErrors (snd (sourceUnitStep c cs i st)))"
proof -
  have v: "nodeAt t (c @ [i]) = Some (cs ! i)"
    using assms by (simp add: nodeAt_snoc)
  show ?thesis
    using validateNode_writes[OF v, where r=0 and st=st and l="lineOf (cs ! i)"]
    by (simp add: sourceUnitStep_def Let_def childWrites_refl)
qed

lemma enterSourceUnit_writes:
  assumes "enterSourceUnit t c st = Inr st'"
  shows "childWrites t c UNIV (indentErrors (snd st)) (indentErrors (snd st'))"
proof -
  obtain chk w where st: "st = (chk, w)" by (cases st)
  from assms st obtain n cs v w1 where n: "nodeAt t c = Some n" and cs: "children n = Some cs"
    and f: "fold (sourceUnitStep c cs) [0 ..< length cs] (blockValidator chk, w) = (v, w1)"
    and st': "st' = (chk\<lparr>blockValidator := v\<rparr>, w1)"
    by (auto simp: enterSourceUnit_def split: option.splits prod.splits)
  have "childWrites t c (set [0 ..< length cs]) (indentErrors (snd (blockValidator chk, w)))
          (indentErrors (snd (fold (sourceUnitStep c cs) [0 ..< length cs] (blockValidator chk, w))))"
    by (rule fold_childWrites) (use sourceUnitStep_writes[OF n cs] in auto)
  then have "childWrites t c (set [0 ..< length cs]) (indentErrors w) (indentErrors w1)"
    using f by simp
  then show ?thesis unfolding st st' by (simp add: childWrites_mono)
qed

lemma enterBlock_writes:
  assumes "enterBlock t c st = Inr st'"
  shows "childWrites t c UNIV (indentErrors (snd st)) (indentErrors (snd st'))"
proof -
  obtain chk w where st: "st = (chk, w)" by (cases st)
  from assms st obtain v w1 where 1: "validateBlock t c (blockValidator chk, w) = Inr (v, w1)"
    and st': "st' = (chk\<lparr>blockValidator := v\<rparr>, w1)"
    by (auto simp: enterBlock_def split: sum.splits)
  show ?thesis using validateBlock_writes[OF 1] unfolding st st' by simp
qed

lemma if_mem: "x \<in> S \<Longrightarrow> y \<in> S \<Longrightarrow> (if b then x else y) \<in> S"
  by simp

lemma enterRule_cases:
  "enterRule t c kind st \<in>
     {enterBlock t c st, enterNested t c [4, 6] st, enterNested t c [4] st,
      enterNested t c [1] st, enterForStatement t c st, enterSourceUnit t c st, Inr st}"
  unfolding enterRule_def enterIfStatement_def enterWhileStatement_def enterDoWhileStatement_def
  by (intro if_mem) (simp_all only: insert_iff simp_thms)

lemma enterForStatement_writes:
  assumes "enterForStatement t c st = Inr st'"
  shows "childWrites t c UNIV (indentErrors (snd st)) (indentErrors (snd st'))"
proof -
  from assms obtain k where "enterNested t c [k] st = Inr st'"
    by (auto simp: enterForStatement_def split: option.splits)
  then show ?thesis by (rule enterNested_writes) simp
qed

lemma enterRule_writes:
  assumes "enterRule t c kind st = Inr st'"
  shows "childWrites t c UNIV (indentErrors (snd st)) (indentErrors (snd st'))"
proof -
  consider (block) "enterBlock t c st = Inr st'"
    | (nested) indexes where "enterNested t c indexes st = Inr st'" "distinct (map nat indexes)"
    | (forS) "enterForStatement t c st = Inr st'"
    | (unit) "enterSourceUnit t c st = Inr st'"
    | (none) "st' = st"
  proof -
    have d1: "distinct (map nat [4, 6])" and d2: "distinct (map nat [4])"
      and d3: "distinct (map nat [1])" by simp_all
    from enterRule_cases[of t c kind st] assms
    have "enterRule t c kind st = enterBlock t c st \<or>
          enterRule t c kind st = enterNested t c [4, 6] st \<or>
          enterRule t c kind st = enterNested t c [4] st \<or>
          enterRule t c kind st = enterNested t c [1] st \<or>
          enterRule t c kind st = enterForStatement t c st \<or>
          enterRule t c kind st = enterSourceUnit t c st \<or>
          enterRule t c kind st = Inr st"
      by (simp only: insert_iff empty_iff simp_thms)
    with assms
    have "enterBlock t c st = Inr st' \<or> enterNested t c [4, 6] st = Inr st' \<or>
          enterNested t c [4] st = Inr st' \<or> enterNested t c [1] st = Inr st' \<or>
          enterForStatement t c st = Inr st' \<or> enterSourceUnit t c st = Inr st' \<or> st' = st"
      by (elim disjE) simp_all
    then show ?thesis using that d1 d2 d3 by blast
  qed
  then show ?thesis
  proof cases
    case block
    then show ?thesis by (rule enterBlock_writes)
  next
    case nested
    then show ?thesis by (rule enterNested_writes)
  next
    case forS
    then show ?thesis by (rule enterForStatement_writes)
  next
    case unit
    then show ?thesis by (rule enterSourceUnit_writes)
  next
    case none
    then show ?thesis by (simp add: childWrites_refl)
  qed
qed

lemma childWrites_logExt:
  "childWrites t c I ann ann' \<Longrightarrow> logExt t ((\<lambda>i. c @ [i]) ` I) ann ann'"
  unfolding childWrites_def logExt_def .

lemma logExt_refl: "logExt t K ann ann"
  unfolding logExt_def by (rule exI[of _ "[]"]) simp

lemma logExt_mono:
  assumes "logExt t K ann ann'" "K \<subseteq> L"
  shows "logExt t L ann ann'"
proof -
  from assms(1) obtain W where W: "ann' = W @ ann" "distinct (map fst W)"
    "fst ` set W \<subseteq> K" "list_all (recorded t) W"
    unfolding logExt_def by blast
  have "fst ` set W \<subseteq> L" using W(3) assms(2) by (rule subset_trans)
  with W show ?thesis unfolding logExt_def by blast
qed

lemma logExt_trans:
  assumes "logExt t K ann ann1" "logExt t L ann1 ann2" "K \<inter> L = {}"
  shows "logExt t (K \<union> L) ann ann2"
proof -
  from assms(1) obtain W1 where W1: "ann1 = W1 @ ann" "distinct (map fst W1)"
    "fst ` set W1 \<subseteq> K" "list_all (recorded t) W1"
    unfolding logExt_def by blast
  from assms(2) obtain W2 where W2: "ann2 = W2 @ ann1" "distinct (map fst W2)"
    "fst ` set W2 \<subseteq> L" "list_all (recorded t) W2"
    unfolding logExt_def by blast
  have "fst ` set W2 \<inter> fst ` set W1 \<subseteq> L \<inter> K"
    using W2(3) W1(3) by (rule Int_mono)
  then have disj: "fst ` set W2 \<inter> fst ` set W1 = {}"
    using assms(3) by (simp add: Int_commute)
  have a: "ann2 = (W2 @ W1) @ ann" using W1(1) W2(1) by simp
  have b: "distinct (map fst (W2 @ W1))" using W1(2) W2(2) disj by simp
  have c: "fst ` set (W2 @ W1) \<subseteq> K \<union> L"
    using W1(3) W2(3) by (simp add: image_Un le_supI1 le_supI2)
  have d: "list_all (recorded t) (W2 @ W1)" using W1(4) W2(4) by simp
  show ?thesis unfolding logExt_def
    by (rule exI[of _ "W2 @ W1"]) (intro conjI a b c d)
qed

lemma exitRule_indentErrors [simp]:
  "indentErrors (snd (exitRule toks kind st)) = indentErrors (snd st)"
  by (cases st) (simp add: exitRule_def exitSourceUnit_def split: prod.splits)

lemma child_not_below:
  "strict_prefix (c @ [j]) q \<Longrightarrow> q \<noteq> c @ [i]"
proof
  assume a: "strict_prefix (c @ [j]) q" and b: "q = c @ [i]"
  from a have "length (c @ [j]) < length q" by (rule prefix_length_less)
  with b show False by simp
qed

lemma below_disjoint:
  assumes "strict_prefix (c @ [i]) q" "strict_prefix (c @ [j]) q"
  shows "i = j"
proof -
  obtain r where r: "q = (c @ [i]) @ r" using assms(1) by (auto simp: strict_prefix_def prefix_def)
  obtain s where s: "q = (c @ [j]) @ s" using assms(2) by (auto simp: strict_prefix_def prefix_def)
  from r s have "c @ (i # r) = c @ (j # s)" by simp
  then show ?thesis by simp
qed

lemma strict_prefix_snoc: "strict_prefix c (c @ [i])"
  by (simp add: strict_prefix_def)

lemma strict_prefix_below: "strict_prefix (c @ [j]) q \<Longrightarrow> strict_prefix c q"
  using strict_prefix_snoc[of c j] by (rule prefix_order.less_trans)

text \<open>The state a hook leaves behind is the state it returns, when it returns.\<close>

lemma validateBlockCaught_returns:
  "validateBlock t c st = Inr st' \<Longrightarrow> validateBlockCaught t c st = st'"
  by (auto simp: validateBlock_def validateBlockCaught_def
      split: option.splits sum.splits bool.splits if_splits)

lemma validateMultipleCaught_returns:
  "validateMultiple t c indexes st = Inr st' \<Longrightarrow> validateMultipleCaught t c indexes st = st'"
  by (induction indexes arbitrary: st) (auto split: sum.splits)

lemma enterBlockCaught_returns:
  "enterBlock t c st = Inr st' \<Longrightarrow> enterBlockCaught t c st = st'"
  by (cases st)
     (auto simp: enterBlock_def enterBlockCaught_def dest!: validateBlockCaught_returns
      split: sum.splits)

lemma enterNestedCaught_returns:
  "enterNested t c indexes st = Inr st' \<Longrightarrow> enterNestedCaught t c indexes st = st'"
  by (cases st)
     (auto simp: enterNested_def enterNestedCaught_def dest!: validateMultipleCaught_returns
      split: sum.splits)

lemma enterForStatementCaught_returns:
  "enterForStatement t c st = Inr st' \<Longrightarrow> enterForStatementCaught t c st = st'"
  by (auto simp: enterForStatement_def enterForStatementCaught_def
      dest!: enterNestedCaught_returns split: option.splits)

lemma cases7:
  assumes "A \<Longrightarrow> P" "\<not> A \<Longrightarrow> B \<Longrightarrow> P" "\<not> A \<Longrightarrow> \<not> B \<Longrightarrow> C \<Longrightarrow> P"
    "\<not> A \<Longrightarrow> \<not> B \<Longrightarrow> \<not> C \<Longrightarrow> D \<Longrightarrow> P"
    "\<not> A \<Longrightarrow> \<not> B \<Longrightarrow> \<not> C \<Longrightarrow> \<not> D \<Longrightarrow> E \<Longrightarrow> P"
    "\<not> A \<Longrightarrow> \<not> B \<Longrightarrow> \<not> C \<Longrightarrow> \<not> D \<Longrightarrow> \<not> E \<Longrightarrow> F \<Longrightarrow> P"
    "\<not> A \<Longrightarrow> \<not> B \<Longrightarrow> \<not> C \<Longrightarrow> \<not> D \<Longrightarrow> \<not> E \<Longrightarrow> \<not> F \<Longrightarrow> P"
  shows P
  using assms by blast

lemma enterRuleCaught_returns:
  assumes "enterRule t c kind st = Inr st'"
  shows "enterRuleCaught t c kind st = st'"
proof -
  let ?B = "{''BlockContext'', ''ContractDefinitionContext'', ''StructDefinitionContext'',
             ''EnumDefinitionContext'', ''ImportDirectiveContext'',
             ''FunctionCallArgumentsContext''}"
  show ?thesis
  proof (rule cases7[where A="kind \<in> ?B" and B="kind = ''IfStatementContext''"
        and C="kind = ''WhileStatementContext''" and D="kind = ''DoWhileStatementContext''"
        and E="kind = ''ForStatementContext''" and F="kind = ''SourceUnitContext''"])
    assume block: "kind \<in> ?B"
    have "enterRule t c kind st = enterBlock t c st"
      and "enterRuleCaught t c kind st = enterBlockCaught t c st"
      unfolding enterRule_def enterRuleCaught_def by (simp_all only: if_P[OF block])
    then show ?thesis using assms by (simp add: enterBlockCaught_returns)
  next
    assume ifS: "kind \<notin> ?B" "kind = ''IfStatementContext''"
    have "enterRule t c kind st = enterNested t c [4, 6] st"
      and "enterRuleCaught t c kind st = enterNestedCaught t c [4, 6] st"
      unfolding enterRule_def enterRuleCaught_def enterIfStatement_def
      by (simp_all only: if_not_P[OF ifS(1)] if_P[OF ifS(2)])
    then show ?thesis using assms by (simp add: enterNestedCaught_returns)
  next
    assume whileS: "kind \<notin> ?B" "kind \<noteq> ''IfStatementContext''" "kind = ''WhileStatementContext''"
    have "enterRule t c kind st = enterNested t c [4] st"
      and "enterRuleCaught t c kind st = enterNestedCaught t c [4] st"
      unfolding enterRule_def enterRuleCaught_def enterWhileStatement_def
      by (simp_all only: if_not_P[OF whileS(1)] if_not_P[OF whileS(2)] if_P[OF whileS(3)])
    then show ?thesis using assms by (simp add: enterNestedCaught_returns)
  next
    assume doS: "kind \<notin> ?B" "kind \<noteq> ''IfStatementContext''" "kind \<noteq> ''WhileStatementContext''"
      "kind = ''DoWhileStatementContext''"
    have "enterRule t c kind st = enterNested t c [1] st"
      and "enterRuleCaught t c kind st = enterNestedCaught t c [1] st"
      unfolding enterRule_def enterRuleCaught_def enterDoWhileStatement_def
      by (simp_all only: if_not_P[OF doS(1)] if_not_P[OF doS(2)] if_not_P[OF doS(3)]
          if_P[OF doS(4)])
    then show ?thesis using assms by (simp add: enterNestedCaught_returns)
  next
    assume forS: "kind \<notin> ?B" "kind \<noteq> ''IfStatementContext''" "kind \<noteq> ''WhileStatementContext''"
      "kind \<noteq> ''DoWhileStatementContext''" "kind = ''ForStatementContext''"
    have "enterRule t c kind st = enterForStatement t c st"
      and "enterRuleCaught t c kind st = enterForStatementCaught t c st"
      unfolding enterRule_def enterRuleCaught_def
      by (simp_all only: if_not_P[OF forS(1)] if_not_P[OF forS(2)] if_not_P[OF forS(3)]
          if_not_P[OF forS(4)] if_P[OF forS(5)])
    then show ?thesis using assms by (simp add: enterForStatementCaught_returns)
  next
    assume unit: "kind \<notin> ?B" "kind \<noteq> ''IfStatementContext''" "kind \<noteq> ''WhileStatementContext''"
      "kind \<noteq> ''DoWhileStatementContext''" "kind \<noteq> ''ForStatementContext''"
      "kind = ''SourceUnitContext''"
    have "enterRule t c kind st = enterSourceUnit t c st"
      and "enterRuleCaught t c kind st = enterSourceUnitCaught t c st"
      unfolding enterRule_def enterRuleCaught_def
      by (simp_all only: if_not_P[OF unit(1)] if_not_P[OF unit(2)] if_not_P[OF unit(3)]
          if_not_P[OF unit(4)] if_not_P[OF unit(5)] if_P[OF unit(6)])
    then have "enterSourceUnit t c st = Inr st'"
      and "enterRuleCaught t c kind st = enterSourceUnitCaught t c st"
      using assms by simp_all
    then show ?thesis by (simp add: enterSourceUnitCaught_def)
  next
    assume other: "kind \<notin> ?B" "kind \<noteq> ''IfStatementContext''" "kind \<noteq> ''WhileStatementContext''"
      "kind \<noteq> ''DoWhileStatementContext''" "kind \<noteq> ''ForStatementContext''"
      "kind \<noteq> ''SourceUnitContext''"
    have "enterRule t c kind st = Inr st" and "enterRuleCaught t c kind st = st"
      unfolding enterRule_def enterRuleCaught_def
      by (simp_all only: if_not_P[OF other(1)] if_not_P[OF other(2)] if_not_P[OF other(3)]
          if_not_P[OF other(4)] if_not_P[OF other(5)] if_not_P[OF other(6)])
    then show ?thesis using assms by simp
  qed
qed

text \<open>What a hook has written when it ends, by a return or by a raise.\<close>

lemma validateIndentOfNestedElements_writes:
  assumes "nodeAt t c = Some n" "validateIndentOfNestedElements t c n st = Inr st1"
  shows "childWrites t c UNIV (indentErrors (snd st)) (indentErrors (snd st1))"
proof -
  from assms(2) obtain a where
    "forEachNestedNode (validateNode (a + indent (fst st))) c n st = Inr st1"
    by (auto simp: validateIndentOfNestedElements_def split: sum.splits)
  then show ?thesis by (rule forEachNestedNode_writes[OF assms(1)])
qed

lemma validateBlockCaught_writes:
  "childWrites t c UNIV (indentErrors (snd st)) (indentErrors (snd (validateBlockCaught t c st)))"
proof (cases "validateBlockCaught t c st = st")
  case True
  then show ?thesis by (simp add: childWrites_refl)
next
  case False
  then obtain n st1 where n: "nodeAt t c = Some n"
    and 1: "validateIndentOfNestedElements t c n st = Inr st1"
    and 2: "validateBlockCaught t c st = st1
            \<or> validateEndBracketIndent t c n st1 = Inr (validateBlockCaught t c st)"
    by (auto simp: validateBlockCaught_def split: option.splits sum.splits bool.splits if_splits)
  from 2 have "indentErrors (snd (validateBlockCaught t c st)) = indentErrors (snd st1)"
  proof
    assume "validateBlockCaught t c st = st1"
    then show ?thesis by simp
  next
    assume "validateEndBracketIndent t c n st1 = Inr (validateBlockCaught t c st)"
    then show ?thesis by (rule validateEndBracketIndent_indentErrors)
  qed
  then show ?thesis using validateIndentOfNestedElements_writes[OF n 1] by simp
qed

lemma validateMultipleCaught_writes:
  assumes "distinct (map nat indexes)"
  shows "childWrites t c (nat ` set indexes) (indentErrors (snd st))
           (indentErrors (snd (validateMultipleCaught t c indexes st)))"
  using assms
proof (induction indexes arbitrary: st)
  case Nil
  then show ?case by (simp add: childWrites_refl)
next
  case (Cons i idxs)
  show ?case
  proof (cases "validate t c i st")
    case (Inl e)
    then show ?thesis by (simp add: childWrites_refl)
  next
    case (Inr st1)
    have a: "childWrites t c {nat i} (indentErrors (snd st)) (indentErrors (snd st1))"
      using Inr by (rule validate_writes)
    have b: "childWrites t c (nat ` set idxs) (indentErrors (snd st1))
               (indentErrors (snd (validateMultipleCaught t c idxs st1)))"
      using Cons.IH Cons.prems by simp
    have "childWrites t c ({nat i} \<union> nat ` set idxs) (indentErrors (snd st))
            (indentErrors (snd (validateMultipleCaught t c idxs st1)))"
      using childWrites_trans[OF a b] Cons.prems by auto
    then show ?thesis using Inr by simp
  qed
qed

lemma enterBlockCaught_writes:
  "childWrites t c UNIV (indentErrors (snd st)) (indentErrors (snd (enterBlockCaught t c st)))"
proof -
  obtain chk w where st: "st = (chk, w)" by (cases st)
  obtain v w1 where 1: "validateBlockCaught t c (blockValidator chk, w) = (v, w1)"
    by (cases "validateBlockCaught t c (blockValidator chk, w)")
  show ?thesis
    using validateBlockCaught_writes[of t c "(blockValidator chk, w)"] 1
    unfolding st by (simp add: enterBlockCaught_def)
qed

lemma enterNestedCaught_writes:
  assumes "distinct (map nat indexes)"
  shows "childWrites t c UNIV (indentErrors (snd st))
           (indentErrors (snd (enterNestedCaught t c indexes st)))"
proof -
  obtain chk w where st: "st = (chk, w)" by (cases st)
  obtain v w1 where
    1: "validateMultipleCaught t c indexes (nestedSingleLineValidator chk, w) = (v, w1)"
    by (cases "validateMultipleCaught t c indexes (nestedSingleLineValidator chk, w)")
  have "childWrites t c (nat ` set indexes) (indentErrors w) (indentErrors w1)"
    using validateMultipleCaught_writes[OF assms, of t c "(nestedSingleLineValidator chk, w)"] 1
    by simp
  then have "childWrites t c UNIV (indentErrors w) (indentErrors w1)"
    by (rule childWrites_mono) simp
  then show ?thesis using 1 unfolding st by (simp add: enterNestedCaught_def)
qed

lemma enterForStatementCaught_writes:
  "childWrites t c UNIV (indentErrors (snd st))
     (indentErrors (snd (enterForStatementCaught t c st)))"
proof -
  have "enterForStatementCaught t c st = st
        \<or> (\<exists>k. enterForStatementCaught t c st = enterNestedCaught t c [k] st)"
    by (auto simp: enterForStatementCaught_def split: option.splits)
  then show ?thesis
  proof
    assume "enterForStatementCaught t c st = st"
    then show ?thesis by (simp add: childWrites_refl)
  next
    assume "\<exists>k. enterForStatementCaught t c st = enterNestedCaught t c [k] st"
    then obtain k where k: "enterForStatementCaught t c st = enterNestedCaught t c [k] st" ..
    have "distinct (map nat [k])" by simp
    then show ?thesis unfolding k by (rule enterNestedCaught_writes)
  qed
qed

lemma enterSourceUnitCaught_writes:
  "childWrites t c UNIV (indentErrors (snd st))
     (indentErrors (snd (enterSourceUnitCaught t c st)))"
proof (cases "enterSourceUnit t c st")
  case (Inl e)
  then show ?thesis by (simp add: enterSourceUnitCaught_def childWrites_refl)
next
  case (Inr st1)
  then show ?thesis using enterSourceUnit_writes[OF Inr] by (simp add: enterSourceUnitCaught_def)
qed

lemma enterRuleCaught_cases:
  "enterRuleCaught t c kind st \<in>
     {enterBlockCaught t c st, enterNestedCaught t c [4, 6] st, enterNestedCaught t c [4] st,
      enterNestedCaught t c [1] st, enterForStatementCaught t c st,
      enterSourceUnitCaught t c st, st}"
  unfolding enterRuleCaught_def
  by (intro if_mem) (simp_all only: insert_iff simp_thms)

lemma enterRuleCaught_writes:
  "childWrites t c UNIV (indentErrors (snd st)) (indentErrors (snd (enterRuleCaught t c kind st)))"
proof -
  have d1: "distinct (map nat [4, 6])" and d2: "distinct (map nat [4])"
    and d3: "distinct (map nat [1])" by simp_all
  from enterRuleCaught_cases[of t c kind st]
  have "enterRuleCaught t c kind st = enterBlockCaught t c st \<or>
        enterRuleCaught t c kind st = enterNestedCaught t c [4, 6] st \<or>
        enterRuleCaught t c kind st = enterNestedCaught t c [4] st \<or>
        enterRuleCaught t c kind st = enterNestedCaught t c [1] st \<or>
        enterRuleCaught t c kind st = enterForStatementCaught t c st \<or>
        enterRuleCaught t c kind st = enterSourceUnitCaught t c st \<or>
        enterRuleCaught t c kind st = st"
    by (simp only: insert_iff empty_iff simp_thms)
  then show ?thesis
  proof (elim disjE)
    assume e: "enterRuleCaught t c kind st = enterBlockCaught t c st"
    show ?thesis unfolding e by (rule enterBlockCaught_writes)
  next
    assume e: "enterRuleCaught t c kind st = enterNestedCaught t c [4, 6] st"
    show ?thesis unfolding e using d1 by (rule enterNestedCaught_writes)
  next
    assume e: "enterRuleCaught t c kind st = enterNestedCaught t c [4] st"
    show ?thesis unfolding e using d2 by (rule enterNestedCaught_writes)
  next
    assume e: "enterRuleCaught t c kind st = enterNestedCaught t c [1] st"
    show ?thesis unfolding e using d3 by (rule enterNestedCaught_writes)
  next
    assume e: "enterRuleCaught t c kind st = enterForStatementCaught t c st"
    show ?thesis unfolding e by (rule enterForStatementCaught_writes)
  next
    assume e: "enterRuleCaught t c kind st = enterSourceUnitCaught t c st"
    show ?thesis unfolding e by (rule enterSourceUnitCaught_writes)
  next
    assume e: "enterRuleCaught t c kind st = st"
    show ?thesis unfolding e by (rule childWrites_refl)
  qed
qed

text \<open>The walk of a subtree writes on nodes strictly below its root, on none of them twice.\<close>

lemma walk_logExt:
  "logExt t {q. strict_prefix c q} (indentErrors (snd st))
     (indentErrors (snd (walk t toks n c st)))"
  "logExt t {q. \<exists>j\<ge>i. strict_prefix (c @ [j]) q} (indentErrors (snd st))
     (indentErrors (snd (walkChildren t toks c ns i st)))"
proof (induction t toks n c st and t toks c ns i st rule: walk_walkChildren.induct)
  case (1 t toks s tx c st)
  then show ?case by (simp add: logExt_refl)
next
  case (2 t toks nm sta sto tx cs c st)
  let ?st1 = "enterRuleCaught t c nm st"
  let ?st2 = "walkChildren t toks c cs 0 ?st1"
  have a: "logExt t (range (\<lambda>i. c @ [i])) (indentErrors (snd st)) (indentErrors (snd ?st1))"
    using childWrites_logExt[OF enterRuleCaught_writes] .
  have b: "logExt t {q. \<exists>j\<ge>0. strict_prefix (c @ [j]) q} (indentErrors (snd ?st1))
             (indentErrors (snd ?st2))"
    using "2.IH" .
  have d: "range (\<lambda>i. c @ [i]) \<inter> {q. \<exists>j\<ge>0. strict_prefix (c @ [j]) q} = {}"
    using child_not_below by fastforce
  have s: "range (\<lambda>i. c @ [i]) \<union> {q. \<exists>j\<ge>0. strict_prefix (c @ [j]) q} \<subseteq> {q. strict_prefix c q}"
    by (auto intro: strict_prefix_snoc strict_prefix_below)
  show ?case using logExt_mono[OF logExt_trans[OF a b d] s] by simp
next
  case (3 t toks c i st)
  then show ?case by (simp add: logExt_refl)
next
  case (4 t toks c n ns i st)
  let ?st1 = "walk t toks n (c @ [i]) st"
  have a: "logExt t {q. strict_prefix (c @ [i]) q} (indentErrors (snd st)) (indentErrors (snd ?st1))"
    using "4.IH"(1) .
  have b: "logExt t {q. \<exists>j\<ge>Suc i. strict_prefix (c @ [j]) q} (indentErrors (snd ?st1))
             (indentErrors (snd (walkChildren t toks c ns (Suc i) ?st1)))"
    using "4.IH"(2) .
  have d: "{q. strict_prefix (c @ [i]) q} \<inter> {q. \<exists>j\<ge>Suc i. strict_prefix (c @ [j]) q} = {}"
    using below_disjoint by fastforce
  have s: "{q. strict_prefix (c @ [i]) q} \<union> {q. \<exists>j\<ge>Suc i. strict_prefix (c @ [j]) q}
           \<subseteq> {q. \<exists>j\<ge>i. strict_prefix (c @ [j]) q}"
    by (auto intro: Suc_leD)
  show ?case using logExt_mono[OF logExt_trans[OF a b d] s] by simp
qed

lemma wellRecorded_lookup:
  "wellRecorded t ann \<Longrightarrow> map_of ann c = Some e \<Longrightarrow>
   \<exists>n. nodeAt t c = Some n \<and> errIndent e = columnOf n"
  by (auto simp: wellRecorded_def list_all_iff recorded_def dest!: map_of_SomeD split: option.splits)

lemma logExt_wellRecorded:
  "logExt t K ann ann' \<Longrightarrow> wellRecorded t ann \<Longrightarrow> wellRecorded t ann'"
  unfolding logExt_def wellRecorded_def by auto

lemma enterRule_wellRecorded:
  assumes "enterRule t c kind st = Inr st'" "wellRecorded t (indentErrors (snd st))"
  shows "wellRecorded t (indentErrors (snd st'))"
  using logExt_wellRecorded[OF childWrites_logExt[OF enterRule_writes[OF assms(1)]] assms(2)] .

lemma enterRuleCaught_wellRecorded:
  assumes "wellRecorded t (indentErrors (snd st))"
  shows "wellRecorded t (indentErrors (snd (enterRuleCaught t c kind st)))"
  using logExt_wellRecorded[OF childWrites_logExt[OF enterRuleCaught_writes] assms] .

lemma walk_wellRecorded:
  assumes "wellRecorded t (indentErrors (snd st))"
  shows "wellRecorded t (indentErrors (snd (walk t toks n c st)))"
  using logExt_wellRecorded[OF walk_logExt(1) assms] .

lemma checkSource_wellRecorded:
  assumes "checkSource config t toks = Inr st'"
  shows "wellRecorded t (indentErrors (snd st'))"
proof -
  from assms obtain chk where
    "st' = walk t toks t [] (chk, \<lparr>reporter = [], indentErrors = []\<rparr>)"
    by (auto simp: checkSource_def split: sum.splits)
  then show ?thesis using walk_wellRecorded[of t "(chk, \<lparr>reporter = [], indentErrors = []\<rparr>)"]
    by (simp add: wellRecorded_def)
qed

lemma ex_nodeAt_function: "nodeAt exampleTree [0, 3] = Some exampleFunction"
  by (simp add: exampleTree_def)

lemma ex_firstNodeOfLine_block: "firstNodeOfLine exampleTree [0, 3, 0, 4] = Inr [0, 3]"
  by code_simp

lemma ex_specResolver: "specResolver exampleTree exampleAnnotations exampleFunction [0, 3] = 4"
  by code_simp

lemma parent_is_rule:
  assumes "nodeAt t (p @ [i]) = Some n"
  shows "\<exists>pn ps. nodeAt t p = Some pn \<and> start pn = Some ps"
proof -
  from assms obtain pn cs where pn: "nodeAt t p = Some pn" "children pn = Some cs"
    using nodeAt_snoc[of t p i] by (auto split: option.splits)
  then show ?thesis by (cases pn) auto
qed

lemma walkUp_ok:
  "nodeAt t c = Some n \<Longrightarrow> start n = Some s \<Longrightarrow>
   \<exists>r rn rs. walkUp t c = Inr r \<and> nodeAt t r = Some rn \<and> start rn = Some rs"
proof (induction c arbitrary: n s rule: rev_induct)
  case Nil
  then show ?case by (simp add: walkUp_Nil)
next
  case (snoc i p)
  obtain pn ps where pn: "nodeAt t p = Some pn" "start pn = Some ps"
    using parent_is_rule[OF snoc.prems(1)] by blast
  show ?case
    using snoc.prems pn snoc.IH[OF pn]
    by (auto simp: walkUp_snoc)
qed

lemma scanBack_valid:
  assumes "k \<le> length cs" "nodeAt t par = Some pn" "children pn = Some cs" "nodeAt t r \<noteq> None"
  shows "nodeAt t (scanBack par cs l k r) \<noteq> None"
  using assms(1,4)
proof (induction k arbitrary: r)
  case 0
  then show ?case by simp
next
  case (Suc k)
  have "nodeAt t (par @ [k]) \<noteq> None"
    using Suc.prems(1) assms(2,3) by (simp add: nodeAt_snoc)
  then show ?case using Suc by simp
qed

lemma scanBack_line:
  assumes "scanBack par cs l k r \<noteq> r" "k \<le> length cs"
    "nodeAt t par = Some pn" "children pn = Some cs"
  shows "\<exists>x. nodeAt t (scanBack par cs l k r) = Some x \<and> stopLine x = l"
  using assms(1,2)
proof (induction k arbitrary: r)
  case 0
  then show ?case by simp
next
  case (Suc k)
  show ?case
  proof (cases "stopLine (cs ! k) = l")
    case True
    have v: "nodeAt t (par @ [k]) = Some (cs ! k)"
      using Suc.prems(2) assms(3,4) by (simp add: nodeAt_snoc)
    show ?thesis
    proof (cases "scanBack par cs l k (par @ [k]) = par @ [k]")
      case t: True
      then show ?thesis using True v by simp
    next
      case False
      then show ?thesis using Suc.IH[of "par @ [k]"] Suc.prems(2) True by simp
    qed
  next
    case False
    then show ?thesis using Suc.IH[of r] Suc.prems by simp
  qed
qed

lemma siblingScan_ok:
  assumes "nodeAt t r = Some rn"
  shows "\<exists>res x. siblingScan t r = Inr res \<and> nodeAt t res = Some x
           \<and> (res = r \<or> stopLine x = lineOf rn)"
proof (cases "r = []")
  case True
  then show ?thesis using assms by (simp add: siblingScan_def parentCtx_def)
next
  case False
  obtain pn cs where pn: "nodeAt t (butlast r) = Some pn" "children pn = Some cs"
    "last r < length cs"
    using nodeAt_butlast[OF assms False] by blast
  let ?res = "scanBack (butlast r) cs (lineOf rn) (last r) r"
  have s: "siblingScan t r = Inr ?res"
    using False assms pn by (simp add: siblingScan_def parentCtx_def)
  have v: "nodeAt t ?res \<noteq> None"
    using scanBack_valid[OF _ pn(1,2), of "last r" r "lineOf rn"] pn(3) assms by simp
  then obtain x where x: "nodeAt t ?res = Some x" by blast
  have "?res = r \<or> stopLine x = lineOf rn"
    using scanBack_line[OF _ _ pn(1,2), of "lineOf rn" "last r" r] pn(3) x by auto
  then show ?thesis using s x by blast
qed

lemma stopLine_terminal: "start x = None \<Longrightarrow> stopLine x = lineOf x"
  by (cases x) auto

lemma firstNodeOfLine_ok:
  "nodeAt t c = Some n \<Longrightarrow> start n = Some s \<Longrightarrow>
   \<exists>a an. firstNodeOfLine t c = Inr a \<and> nodeAt t a = Some an"
proof (induction "docIndex t c" arbitrary: c n s rule: less_induct)
  case less
  obtain r rn rs where r: "walkUp t c = Inr r" "nodeAt t r = Some rn" "start rn = Some rs"
    using walkUp_ok[OF less.prems] by blast
  obtain res x where res: "siblingScan t r = Inr res" "nodeAt t res = Some x"
    "res = r \<or> stopLine x = lineOf rn"
    using siblingScan_ok[OF r(2)] by blast
  have ln: "lineOf rn = lineOf n"
    using walkUp_line[OF r(1) less.prems(1)] r(2) by simp
  show ?case
  proof (cases "lineOf n = lineOf x")
    case True
    then show ?thesis
      using r(1) res(1,2) less.prems(1) by (subst firstNodeOfLine.simps) simp
  next
    case False
    have unfold: "firstNodeOfLine t c = firstNodeOfLine t res"
      using False r(1) res(1,2) less.prems(1) by (subst firstNodeOfLine.simps) simp
    have "res \<noteq> r" using False ln r(2) res(2) by auto
    then have sl: "stopLine x = lineOf n" using res(3) ln by simp
    obtain xs where xs: "start x = Some xs"
      using sl False stopLine_terminal[of x] by (cases "start x") auto
    have "docIndex t res < docIndex t c"
      using firstNodeOfLine_progress[OF r(1) res(1) less.prems(1) res(2) False] .
    then show ?thesis
      using less.hyps[OF _ res(2) xs] unfold by simp
  qed
qed

lemma correctIndentOf_ok:
  "nodeAt t a = Some an \<Longrightarrow> \<exists>r. correctIndentOf t ann a = Inr r"
  using correctIndentOf_spec by blast

lemma anchorIndent_ok:
  assumes "nodeAt t c = Some n" "start n = Some s"
  shows "\<exists>a an r. firstNodeOfLine t c = Inr a \<and> nodeAt t a = Some an
          \<and> correctIndentOf t ann a = Inr r \<and> anchorIndent t ann c = Inr r"
proof -
  obtain a an where a: "firstNodeOfLine t c = Inr a" "nodeAt t a = Some an"
    using firstNodeOfLine_ok[OF assms] by blast
  obtain r where r: "correctIndentOf t ann a = Inr r"
    using correctIndentOf_ok[OF a(2)] by blast
  show ?thesis using a r by (simp add: anchorIndent_def)
qed

lemma indexOf_nonneg_iff: "0 \<le> indexOf xs x \<longleftrightarrow> x \<in> set xs"
  by (induction xs) (auto simp: Let_def)

lemma hasStartBracket_iff:
  "hasStartBracket n \<longleftrightarrow> (\<exists>cs. children n = Some cs \<and> ''{'' \<in> set (map getText cs))"
  by (auto simp: hasStartBracket_def startBracketIndex_def indexOf_nonneg_iff split: option.splits)

lemma indexOf_first:
  "indexOf xs x = (if x \<in> set xs then int (length (takeWhile (\<lambda>y. y \<noteq> x) xs)) else - 1)"
  by (induction xs) (auto simp: Let_def)

lemma at_last: "at cs (int (length cs) - 1) = (if cs = [] then None else Some (last cs))"
  by (cases cs rule: rev_cases) (auto simp: at_def nth_append)

lemma symbolLine_Inr:
  assumes "symbolLine x = Inr l"
  shows "\<exists>s tx. x = Some (TerminalNode s tx) \<and> l = line s"
proof (cases x)
  case None
  then show ?thesis using assms by (simp add: symbolLine_def)
next
  case (Some b)
  then show ?thesis using assms by (cases b) (auto simp: symbolLine_def)
qed

lemma makeReport_reporter:
  "reporter (snd (makeReportCorrectLine l col r st)) =
     reporter (snd st) @
       [\<lparr>atLine = l, atColumn = col, ruleId = ''indent'',
         message = [Str ''Expected indentation of '', Num r, Str '' '', Str (indentUnit (fst st)),
                    Str '' but found '', Num col]\<rparr>]"
  by (cases st) (simp add: makeReportCorrectLine_def errorAt_def)

lemma makeReport_lines:
  "linesWithError (fst (makeReportCorrectLine l col r st)) = linesWithError (fst st) @ [l]"
  by (cases st) (simp add: makeReportCorrectLine_def)

lemma ex_nodeAt_block: "nodeAt exampleTree [0, 3, 0, 4] = Some exampleBlock"
  by (simp add: exampleTree_def exampleFunction_def)

lemma ex_correctIndentOf_function:
  "correctIndentOf exampleTree exampleAnnotations [0, 3] = Inr 4"
  by code_simp

lemma ex_endBracket_block: "endBracket exampleBlock = Inr (Some (TerminalNode (tok 6 6) ''}''))"
  by (simp add: exampleBlock_def endBracket_def at_def)

lemma parent_valid:
  assumes "nodeAt t c = Some n" "parentCtx c = Some par"
  shows "\<exists>pn. nodeAt t par = Some pn"
proof -
  from assms(2) have c: "c \<noteq> []" "par = butlast c" by (auto simp: parentCtx_def split: if_splits)
  then show ?thesis using nodeAt_butlast[OF assms(1) c(1)] by blast
qed

lemma ex_nodeAt_if:
  "nodeAt exampleTree [0, 3, 0, 4, 2, 0] =
     Some (RuleContext ''IfStatementContext'' (tok 4 8) (tok 5 12) ''if(a)b;'' exampleIfChildren)"
  by (simp add: exampleTree_def exampleFunction_def exampleBlock_def exampleIf_def)

lemma ex_correctIndentOf_if_parent:
  "correctIndentOf exampleTree exampleAnnotations [0, 3, 0, 4, 2] = Inr 8"
  by code_simp

lemma jsRemainder_dvd: "b \<noteq> 0 \<Longrightarrow> jsRemainder a b \<noteq> Some 0 \<longleftrightarrow> \<not> b dvd a"
proof -
  assume b: "b \<noteq> 0"
  have "sgn a * (\<bar>a\<bar> mod \<bar>b\<bar>) = 0 \<longleftrightarrow> \<bar>b\<bar> dvd \<bar>a\<bar>"
    by (cases "a = 0") (auto simp: sgn_if dvd_eq_mod_eq_0)
  then show ?thesis using b by (simp add: jsRemainder_def)
qed

lemma applyTokenIndent_map_of:
  "map_of (firstIndent (applyTokenIndent tk b)) l =
     (if l = line tk
      then (case map_of (firstIndent b) l of
              None \<Rightarrow> Some (column tk)
            | Some c \<Rightarrow> Some (min c (column tk)))
      else map_of (firstIndent b) l)"
  by (auto simp: applyTokenIndent_def update_conv' min_def split: option.splits)

lemma applyTokenIndent_keys:
  "fst ` set (firstIndent (applyTokenIndent tk b)) = insert (line tk) (fst ` set (firstIndent b))"
proof -
  have "map_of (firstIndent b) (line tk) \<noteq> None \<Longrightarrow> line tk \<in> fst ` set (firstIndent b)"
    by (simp add: map_of_eq_None_iff)
  then show ?thesis
    by (auto simp: applyTokenIndent_def dom_update[simplified dom_map_of_conv_image_fst]
        split: option.splits)
qed

lemma applyTokenIndent_distinct:
  "distinct (map fst (firstIndent b)) \<Longrightarrow> distinct (map fst (firstIndent (applyTokenIndent tk b)))"
  by (simp add: applyTokenIndent_def distinct_update)

lemma applyTokenIndent_baseIndent [simp]:
  "baseIndent (applyTokenIndent tk b) = baseIndent b"
  by (simp add: applyTokenIndent_def)

lemma fold_apply_baseIndent [simp]:
  "baseIndent (fold applyTokenIndent xs b) = baseIndent b"
  by (induction xs arbitrary: b) simp_all

lemma fold_apply_keys:
  "fst ` set (firstIndent (fold applyTokenIndent xs b)) = line ` set xs \<union> fst ` set (firstIndent b)"
  by (induction xs arbitrary: b) (auto simp: applyTokenIndent_keys)

lemma fold_apply_distinct:
  "distinct (map fst (firstIndent b)) \<Longrightarrow>
   distinct (map fst (firstIndent (fold applyTokenIndent xs b)))"
  by (induction xs arbitrary: b) (simp_all add: applyTokenIndent_distinct)

lemma Min_insert_min:
  fixes a b :: int
  assumes "finite S"
  shows "Min (insert (min a b) S) = Min (insert a (insert b S))"
proof (cases "S = {}")
  case True
  then show ?thesis by simp
next
  case False
  then show ?thesis using assms by (simp add: min.assoc)
qed

lemma fold_apply_map_of:
  "map_of (firstIndent (fold applyTokenIndent xs b)) l =
     (case map_of (firstIndent b) l of
        None \<Rightarrow> (if filter (\<lambda>tk. line tk = l) xs = [] then None
                  else Some (Min (set (map column (filter (\<lambda>tk. line tk = l) xs)))))
      | Some c \<Rightarrow> Some (Min (set (c # map column (filter (\<lambda>tk. line tk = l) xs)))))"
proof (induction xs arbitrary: b)
  case Nil
  then show ?case by (simp split: option.splits)
next
  case (Cons x xs)
  let ?cols = "map column (filter (\<lambda>tk. line tk = l) xs)"
  have IH: "map_of (firstIndent (fold applyTokenIndent (x # xs) b)) l =
     (case map_of (firstIndent (applyTokenIndent x b)) l of
        None \<Rightarrow> (if filter (\<lambda>tk. line tk = l) xs = [] then None else Some (Min (set ?cols)))
      | Some c \<Rightarrow> Some (Min (set (c # ?cols))))"
    using Cons.IH[of "applyTokenIndent x b"] by simp
  show ?case
  proof (cases "line x = l")
    case False
    then have f: "filter (\<lambda>tk. line tk = l) (x # xs) = filter (\<lambda>tk. line tk = l) xs" by simp
    have m: "map_of (firstIndent (applyTokenIndent x b)) l = map_of (firstIndent b) l"
      using False by (auto simp: applyTokenIndent_map_of)
    show ?thesis unfolding IH m f ..
  next
    case True
    then have f: "filter (\<lambda>tk. line tk = l) (x # xs) = x # filter (\<lambda>tk. line tk = l) xs" by simp
    show ?thesis
    proof (cases "map_of (firstIndent b) l")
      case None
      then have m: "map_of (firstIndent (applyTokenIndent x b)) l = Some (column x)"
        using True by (auto simp: applyTokenIndent_map_of)
      show ?thesis unfolding IH m f None by simp
    next
      case (Some c)
      then have m: "map_of (firstIndent (applyTokenIndent x b)) l = Some (min c (column x))"
        using True by (auto simp: applyTokenIndent_map_of)
      have "Min (insert (min c (column x)) (set ?cols)) = Min (insert c (insert (column x) (set ?cols)))"
        by (rule Min_insert_min) simp
      then show ?thesis unfolding IH m f Some by (simp del: Min_insert)
    qed
  qed
qed

lemma fold_baseLineStep:
  assumes "\<And>l. l \<in> set ls \<Longrightarrow> map_of (firstIndent b) l = Some (f l)"
    and "baseIndent b \<noteq> 0"
  shows "fold (baseLineStep b lwe) ls rep =
           rep @ map (\<lambda>l. baseReport l (f l))
                   (filter (\<lambda>l. l \<notin> set lwe \<and> \<not> baseIndent b dvd f l) ls)"
  using assms(1)
proof (induction ls arbitrary: rep)
  case Nil
  then show ?case by simp
next
  case (Cons l ls)
  have m: "map_of (firstIndent b) l = Some (f l)" using Cons.prems by simp
  have step: "baseLineStep b lwe l rep =
     (if l \<notin> set lwe \<and> \<not> baseIndent b dvd f l then rep @ [baseReport l (f l)] else rep)"
    using m jsRemainder_dvd[OF assms(2), of "f l"]
    by (simp add: baseLineStep_def isNotValidForBaseIndent_def baseError_def errorAt_def
        baseReport_def)
  have "fold (baseLineStep b lwe) (l # ls) rep = fold (baseLineStep b lwe) ls (baseLineStep b lwe l rep)"
    by simp
  also have "\<dots> = baseLineStep b lwe l rep @ map (\<lambda>l. baseReport l (f l))
                   (filter (\<lambda>l. l \<notin> set lwe \<and> \<not> baseIndent b dvd f l) ls)"
    using Cons.IH[of "baseLineStep b lwe l rep"] Cons.prems by simp
  also have "\<dots> = rep @ map (\<lambda>l. baseReport l (f l))
                   (filter (\<lambda>l. l \<notin> set lwe \<and> \<not> baseIndent b dvd f l) (l # ls))"
    unfolding step by simp
  finally show ?case .
qed

lemma significant_lines:
  assumes "firstIndent b = []"
  shows "sort (map fst (firstIndent (fold applyTokenIndent (significant toks) b)))
           = sort (remdups (map line (significant toks)))"
proof -
  let ?al = "firstIndent (fold applyTokenIndent (significant toks) b)"
  have d: "distinct (map fst ?al)" using assms by (simp add: fold_apply_distinct)
  have k: "set (map fst ?al) = set (map line (significant toks))"
    using fold_apply_keys[of "significant toks" b] assms by simp
  have "sort (map fst ?al) = sort (remdups (map fst ?al))"
    using d by (simp add: distinct_remdups_id)
  also have "\<dots> = sorted_list_of_set (set (map fst ?al))"
    by (rule sorted_list_of_set_sort_remdups[symmetric])
  also have "\<dots> = sort (remdups (map line (significant toks)))"
    unfolding k by (rule sorted_list_of_set_sort_remdups)
  finally show ?thesis .
qed

lemma significant_indent:
  assumes "firstIndent b = []"
  shows "map_of (firstIndent (fold applyTokenIndent (significant toks) b)) l =
           (if l \<in> line ` set (significant toks) then Some (lineIndent toks l) else None)"
proof -
  have "filter (\<lambda>tk. line tk = l) (significant toks) = [] \<longleftrightarrow> l \<notin> line ` set (significant toks)"
    by (auto simp: filter_empty_conv)
  then show ?thesis
    using assms by (simp add: fold_apply_map_of lineIndent_def)
qed

lemma ex_base_reports:
  "map (\<lambda>l. baseReport l (lineIndent exampleTokens l))
     (filter (\<lambda>l. l \<notin> set (linesWithError (nestedSingleLineValidator exampleChecker))
                       \<union> set (linesWithError (blockValidator exampleChecker))
                \<and> \<not> baseIndent (baseIndentMultiplicityValidator exampleChecker)
                      dvd lineIndent exampleTokens l)
        (sort (remdups (map line (significant exampleTokens)))))
   = [baseReport 6 6]"
  by code_simp

lemma ex_lineIndent: "lineIndent exampleTokens 5 = 11" "lineIndent exampleTokens 3 = 8"
  by code_simp+

lemma getProp_ok: "v \<noteq> JUndefined \<Longrightarrow> v \<noteq> JNull \<Longrightarrow> \<exists>r. getProp v k = Inr r"
  by (cases v) auto

lemma getIndex1_ok: "v \<noteq> JUndefined \<Longrightarrow> v \<noteq> JNull \<Longrightarrow> \<exists>r. getIndex1 v = Inr r"
  by (cases v) auto

lemma truthy_defined: "truthy v \<Longrightarrow> v \<noteq> JUndefined \<and> v \<noteq> JNull"
  by (cases v) auto

lemma parseConfig_ok:
  assumes "config \<noteq> JUndefined" "config \<noteq> JNull"
  shows "\<exists>pc. parseConfig config = Inr pc"
proof -
  obtain rules where r: "getProp config ''rules'' = Inr rules"
    using getProp_ok[OF assms] by blast
  show ?thesis
  proof (cases "truthy rules")
    case False
    then show ?thesis using r by (simp add: parseConfig_def)
  next
    case True
    obtain ind where i: "getProp rules ''indent'' = Inr ind"
      using getProp_ok truthy_defined[OF True] by blast
    show ?thesis
    proof (cases "truthy ind")
      case False
      then show ?thesis using r True i by (simp add: parseConfig_def)
    next
      case ti: True
      obtain len where l: "getProp ind ''length'' = Inr len"
        using getProp_ok truthy_defined[OF ti] by blast
      obtain ic where c: "getIndex1 ind = Inr ic"
        using getIndex1_ok truthy_defined[OF ti] by blast
      show ?thesis using r True i ti l c
        by (simp add: parseConfig_def split: jsval.splits)
    qed
  qed
qed

lemma parseConfig_tabs:
  assumes "getProp config ''rules'' = Inr rules"
    "getProp rules ''indent'' = Inr (JArray [sev, JString ''tabs''])"
  shows "parseConfig config = Inr \<lparr>indentOpt = Some 1, unitOpt = Some ''tabs''\<rparr>"
proof -
  have "truthy rules" using assms(2) by (cases rules) (auto split: if_splits)
  then show ?thesis using assms by (simp add: parseConfig_def)
qed

lemma parseConfig_malformed:
  assumes "getProp config ''rules'' = Inr rules"
    "\<not> truthy rules \<or> (\<exists>ind. getProp rules ''indent'' = Inr ind \<and> malformedEntry ind)"
  shows "parseConfig config = Inr \<lparr>indentOpt = None, unitOpt = None\<rparr>"
proof (cases "truthy rules")
  case False
  then show ?thesis using assms(1) by (simp add: parseConfig_def)
next
  case True
  then obtain ind where i: "getProp rules ''indent'' = Inr ind" "malformedEntry ind"
    using assms(2) by blast
  show ?thesis
  proof (cases "truthy ind")
    case False
    then show ?thesis using assms(1) True i by (simp add: parseConfig_def)
  next
    case ti: True
    show ?thesis
    proof (cases ind)
      case (JArray xs)
      then show ?thesis using assms(1) True i ti
        by (cases "xs ! 1") (auto simp: parseConfig_def usable_def)
    next
      case (JObject kvs)
      then show ?thesis using assms(1) True i ti
        by (auto simp: parseConfig_def usable_def split: option.splits jsval.splits)
    next
      case (JString s)
      then show ?thesis using assms(1) True i ti
        by (auto simp: parseConfig_def)
    qed (use assms(1) True i ti in \<open>auto simp: parseConfig_def\<close>)
  qed
qed

lemma newIndentChecker_no_object:
  "newIndentChecker JUndefined = Inl TypeError" "newIndentChecker JNull = Inl TypeError"
  by (simp_all add: newIndentChecker_def parseConfig_def)

subsection \<open>The guard of the block validator and its check of the last child\<close>

text \<open>
  \<open>validateBlock\<close> returns with the state as it was for a node that has no direct child
  whose text is \<open>{\<close>, and for a node on which \<open>isBracketsOnSameLine\<close> answers true.
\<close>

lemma validateBlock_guard:
  assumes "nodeAt t c = Some n"
    and "(\<forall>cs. children n = Some cs \<longrightarrow> ''{'' \<notin> set (map getText cs))
         \<or> isBracketsOnSameLine n = Inr True"
  shows "validateBlock t c st = Inr st \<and> enterBlock t c (chk, w) = Inr (chk, w)"
proof -
  have v: "validateBlock t c st' = Inr st'" for st'
  proof (cases "hasStartBracket n")
    case False
    then show ?thesis using assms(1) by (simp add: validateBlock_def)
  next
    case True
    then have "isBracketsOnSameLine n = Inr True"
      using assms(2) by (auto simp: hasStartBracket_iff)
    then show ?thesis using assms(1) by (simp add: validateBlock_def)
  qed
  show ?thesis using v by (simp add: enterBlock_def)
qed

lemma validateBlock_guard_example:
  "nodeAt singleLineBlock [] = Some singleLineBlock
   \<and> isBracketsOnSameLine singleLineBlock = Inr True
   \<and> columnOf (RuleContext ''StatementContext'' (tok 1 11) (tok 1 14) ''y();'' []) = 11
   \<and> validateBlock singleLineBlock [] exampleState = Inr exampleState
   \<and> nodeAt exampleTree [0, 3, 0, 4, 2, 0] \<noteq> None
   \<and> validateBlock exampleTree [0, 3, 0, 4, 2, 0] exampleState = Inr exampleState"
proof -
  have a: "nodeAt singleLineBlock [] = Some singleLineBlock" by simp
  have b: "isBracketsOnSameLine singleLineBlock = Inr True" by code_simp
  obtain n where n: "nodeAt exampleTree [0, 3, 0, 4, 2, 0] = Some n"
    "\<forall>cs. children n = Some cs \<longrightarrow> ''{'' \<notin> set (map getText cs)"
    by (simp add: exampleTree_def exampleFunction_def exampleBlock_def exampleIf_def
        exampleIfChildren_def exprStatement_def)
  have 1: "validateBlock singleLineBlock [] exampleState = Inr exampleState"
    using validateBlock_guard[OF a, of exampleState] b by simp
  have 2: "validateBlock exampleTree [0, 3, 0, 4, 2, 0] exampleState = Inr exampleState"
    using validateBlock_guard[OF n(1), of exampleState] n(2) by simp
  show ?thesis using a b 1 2 n(1) by (simp add: tok_def)
qed

text \<open>
  For a node with an opening bracket on which \<open>isBracketsOnSameLine\<close> answers false, the
  last child is a terminal; \<open>validateEndBracketIndent\<close> requires it at
  \<open>correctIndentOf(firstNodeOfLine(ctx))\<close>, with no indent unit added, reports at its line
  and column when its column differs, and attaches no correction.
\<close>

lemma validateEndBracketIndent_last_child:
  assumes "nodeAt t c = Some n" and "hasStartBracket n" and "isBracketsOnSameLine n = Inr False"
  shows "\<exists>a r s tx.
      firstNodeOfLine t c = Inr a
      \<and> correctIndentOf t (indentErrors (snd st)) a = Inr r
      \<and> endBracket n = Inr (Some (TerminalNode s tx))
      \<and> validateEndBracketIndent t c n st =
          Inr (if r \<noteq> column s then makeReportCorrectLine (line s) (column s) r st else st)
      \<and> reporter (snd (makeReportCorrectLine (line s) (column s) r st)) =
          reporter (snd st) @
            [\<lparr>atLine = line s, atColumn = column s, ruleId = ''indent'',
              message = [Str ''Expected indentation of '', Num r, Str '' '',
                         Str (indentUnit (fst st)), Str '' but found '', Num (column s)]\<rparr>]
      \<and> indentErrors (snd (makeReportCorrectLine (line s) (column s) r st)) = indentErrors (snd st)
      \<and> validateBlock t c st =
          (case validateIndentOfNestedElements t c n st of
             Inl e \<Rightarrow> Inl e
           | Inr st1 \<Rightarrow> validateEndBracketIndent t c n st1)"
proof -
  from assms(2) obtain cs where cs: "children n = Some cs"
    by (auto simp: hasStartBracket_iff)
  then obtain st0 where st0: "start n = Some st0" by (cases n) auto
  obtain a an r where a: "firstNodeOfLine t c = Inr a"
    and r: "correctIndentOf t (indentErrors (snd st)) a = Inr r"
    and ai: "anchorIndent t (indentErrors (snd st)) c = Inr r"
    using anchorIndent_ok[OF assms(1) st0] by blast
  from assms(3) obtain el where el: "endBracketLine n = Inr el"
    by (auto simp: isBracketsOnSameLine_def split: sum.splits)
  then obtain b where b: "endBracket n = Inr b" "symbolLine b = Inr el"
    by (auto simp: endBracketLine_def split: sum.splits)
  obtain s tx where s: "b = Some (TerminalNode s tx)" "el = line s"
    using symbolLine_Inr[OF b(2)] by blast
  have l: "endBracketLine n = Inr (line s)" using el s by simp
  have col: "endBracketColumn n = Inr (column s)"
    using b(1) s(1) by (simp add: endBracketColumn_def symbolColumn_def)
  have v: "validateEndBracketIndent t c n st =
          Inr (if r \<noteq> column s then makeReportCorrectLine (line s) (column s) r st else st)"
    using ai l col by (simp add: validateEndBracketIndent_def)
  have vb: "validateBlock t c st =
          (case validateIndentOfNestedElements t c n st of
             Inl e \<Rightarrow> Inl e
           | Inr st1 \<Rightarrow> validateEndBracketIndent t c n st1)"
    using assms by (simp add: validateBlock_def)
  show ?thesis
    using a r b(1) s(1) v vb makeReport_reporter[of "line s" "column s" r st]
      makeReport_indentErrors[of "line s" "column s" r st]
    by blast
qed

lemma validateEndBracketIndent_last_child_example:
  "nodeAt exampleTree [0, 3, 0, 4] = Some exampleBlock
   \<and> hasStartBracket exampleBlock
   \<and> isBracketsOnSameLine exampleBlock = Inr False
   \<and> endBracket exampleBlock = Inr (Some (TerminalNode (tok 6 6) ''}''))
   \<and> validateEndBracketIndent exampleTree [0, 3, 0, 4] exampleBlock exampleState =
        Inr (makeReportCorrectLine 6 6 4 exampleState)
   \<and> indentErrors (snd (makeReportCorrectLine 6 6 4 exampleState)) = exampleAnnotations"
proof -
  have h: "hasStartBracket exampleBlock" by code_simp
  have b: "isBracketsOnSameLine exampleBlock = Inr False" by code_simp
  have i: "indentErrors (snd exampleState) = exampleAnnotations" by (simp add: exampleState_def)
  obtain a r s tx where
    1: "firstNodeOfLine exampleTree [0, 3, 0, 4] = Inr a"
    and 2: "correctIndentOf exampleTree (indentErrors (snd exampleState)) a = Inr r"
    and 3: "endBracket exampleBlock = Inr (Some (TerminalNode s tx))"
    and 4: "validateEndBracketIndent exampleTree [0, 3, 0, 4] exampleBlock exampleState =
          Inr (if r \<noteq> column s then makeReportCorrectLine (line s) (column s) r exampleState
               else exampleState)"
    and 5: "indentErrors (snd (makeReportCorrectLine (line s) (column s) r exampleState)) =
          indentErrors (snd exampleState)"
    using validateEndBracketIndent_last_child[OF ex_nodeAt_block h b, of exampleState] by blast
  have a: "a = [0, 3]" using 1 ex_firstNodeOfLine_block by simp
  have r: "r = 4" using 2 a i ex_correctIndentOf_function by simp
  have s: "s = tok 6 6" using 3 ex_endBracket_block by simp
  show ?thesis
    using ex_nodeAt_block h b ex_endBracket_block 4 5 i unfolding r s
    by (simp add: tok_def)
qed

subsection \<open>A budget that is enough\<close>

text \<open>
  The ancestor walks move one level up at every step, so a budget above the depth of the
  node is enough; every recursive call of \<open>firstNodeOfLine\<close> is on a node that comes
  earlier in the document (\<open>firstNodeOfLine_progress\<close>), so a budget above the number of
  nodes before the node is enough.
\<close>

lemma correctIndentOf_loop_fuel_enough:
  "length c < k \<Longrightarrow>
   correctIndentOf_loop_fuel k t ann l ci c = Some (correctIndentOf_loop t ann l ci c)"
proof (induction k arbitrary: c)
  case 0
  then show ?case by simp
next
  case (Suc k)
  show ?case
  proof (cases "c = []")
    case True
    then show ?thesis
      by (subst correctIndentOf_loop.simps) (simp add: parentCtx_def split: option.splits)
  next
    case False
    then have "length (butlast c) < k" using Suc.prems by (cases c rule: rev_cases) auto
    then have "correctIndentOf_loop_fuel k t ann l ci (butlast c)
                 = Some (correctIndentOf_loop t ann l ci (butlast c))"
      by (rule Suc.IH)
    then show ?thesis using False
      by (subst correctIndentOf_loop.simps) (auto simp: parentCtx_def split: option.splits)
  qed
qed

lemma walkUp_fuel_enough:
  "length c < k \<Longrightarrow> walkUp_fuel k t c = Some (walkUp t c)"
proof (induction k arbitrary: c)
  case 0
  then show ?case by simp
next
  case (Suc k)
  show ?case
  proof (cases "c = []")
    case True
    then show ?thesis by (simp add: walkUp_Nil parentCtx_def)
  next
    case False
    then have "length (butlast c) < k" using Suc.prems by (cases c rule: rev_cases) auto
    then have "walkUp_fuel k t (butlast c) = Some (walkUp t (butlast c))"
      by (rule Suc.IH)
    then show ?thesis using False
      by (subst walkUp.simps) (simp add: parentCtx_def split: option.splits)
  qed
qed

lemma firstNodeOfLine_fuel_enough:
  "docIndex t c < k \<Longrightarrow> firstNodeOfLine_fuel k t c = Some (firstNodeOfLine t c)"
proof (induction k arbitrary: c)
  case 0
  then show ?case by simp
next
  case (Suc k)
  have w: "walkUp_fuel (Suc (length c)) t c = Some (walkUp t c)"
    by (rule walkUp_fuel_enough) simp
  show ?case
  proof (cases "walkUp t c")
    case (Inl e)
    then show ?thesis using w by (subst firstNodeOfLine.simps) simp
  next
    case (Inr rootCtx)
    show ?thesis
    proof (cases "siblingScan t rootCtx")
      case (Inl e)
      then show ?thesis using w Inr by (subst firstNodeOfLine.simps) simp
    next
      case res: (Inr resultNode)
      show ?thesis
      proof (cases "\<exists>n r. nodeAt t c = Some n \<and> nodeAt t resultNode = Some r \<and> lineOf n \<noteq> lineOf r")
        case True
        then obtain n r where n: "nodeAt t c = Some n" "nodeAt t resultNode = Some r"
          "lineOf n \<noteq> lineOf r" by blast
        have "docIndex t resultNode < docIndex t c"
          using firstNodeOfLine_progress[OF Inr res n] .
        then have "docIndex t resultNode < k" using Suc.prems by simp
        then have "firstNodeOfLine_fuel k t resultNode = Some (firstNodeOfLine t resultNode)"
          by (rule Suc.IH)
        then show ?thesis using w Inr res n
          by (subst firstNodeOfLine.simps) simp
      next
        case False
        then show ?thesis using w Inr res
          by (subst firstNodeOfLine.simps) (auto split: option.splits)
      qed
    qed
  qed
qed

section \<open>The properties of the specification\<close>

subsection \<open>The resolver on a node that carries a correction\<close>

text \<open>
  C10. For every node that itself carries an indent correction, the resolver returns that
  node's own recorded expected column: the loop body looks at the node itself before it
  moves to any ancestor, and the correction's \<open>indent\<close> is the node's own column, so
  \<open>column - indent + correctIndent\<close> is \<open>correctIndent\<close>. That the recorded \<open>indent\<close> is
  the node's own column is \<open>wellRecorded\<close>; it holds of the empty annotations and every
  hook keeps it, whether it returns or raises (\<open>enterRule_wellRecorded\<close>,
  \<open>enterRuleCaught_wellRecorded\<close>), so it holds throughout a traversal
  (\<open>walk_wellRecorded\<close>, \<open>checkSource_wellRecorded\<close>).
\<close>

theorem resolver_returns_own_expected_column:
  assumes "wellRecorded t ann" and "map_of ann c = Some e"
  shows "correctIndentOf t ann c = Inr (errCorrectIndent e)"
proof -
  obtain n where n: "nodeAt t c = Some n" "errIndent e = columnOf n"
    using wellRecorded_lookup[OF assms] by blast
  show ?thesis using correctIndentOf_self[OF n(1) assms(2)] n(2) by simp
qed

theorem resolver_returns_own_expected_column_witness:
  "wellRecorded exampleTree exampleAnnotations
   \<and> map_of exampleAnnotations [0, 3] = Some \<lparr>errIndent = 6, errCorrectIndent = 4\<rparr>
   \<and> correctIndentOf exampleTree exampleAnnotations [0, 3] = Inr 4"
proof -
  have a: "wellRecorded exampleTree exampleAnnotations"
    by (simp add: wellRecorded_def recorded_def exampleAnnotations_def ex_nodeAt_function
        exampleFunction_def tok_def)
  have b: "map_of exampleAnnotations [0, 3] = Some \<lparr>errIndent = 6, errCorrectIndent = 4\<rparr>"
    by (simp add: exampleAnnotations_def)
  show ?thesis
    using resolver_returns_own_expected_column[OF a b] a b by simp
qed

subsection \<open>The resolver and the specification's algorithm\<close>

text \<open>
  C1. For every node of the tree, \<open>correctIndentOf\<close> returns what the specification's
  algorithm returns (\<open>specResolver\<close>): the node's column minus the recorded observed
  column plus the recorded expected column, taken at the first node that carries a
  correction among the node itself and its ancestors up to the first ancestor that begins
  on another line (or the root); and the node's own column when none of them carries one.
  Consequently, when the anchor \<open>firstNodeOfLine\<close> finds for a block carries a recorded
  correction, the indent required of the block's nested elements is the corrected column
  of the anchor plus one unit, not its observed column plus one unit.
\<close>

theorem resolver_follows_specification:
  assumes "nodeAt t c = Some n"
  shows "correctIndentOf t ann c = Inr (specResolver t ann n c)
    \<and> (\<forall>b bn (st :: vstate) e.
          firstNodeOfLine t b = Inr c \<longrightarrow> map_of (indentErrors (snd st)) c = Some e \<longrightarrow>
          errIndent e = columnOf n \<longrightarrow>
          validateIndentOfNestedElements t b bn st =
            forEachNestedNode (validateNode (errCorrectIndent e + indent (fst st))) b bn st)"
proof (intro conjI allI impI)
  show "correctIndentOf t ann c = Inr (specResolver t ann n c)"
    using assms by (rule correctIndentOf_spec)
next
  fix b bn and st :: vstate and e
  assume f: "firstNodeOfLine t b = Inr c" and m: "map_of (indentErrors (snd st)) c = Some e"
    and i: "errIndent e = columnOf n"
  have "correctIndentOf t (indentErrors (snd st)) c = Inr (errCorrectIndent e)"
    using correctIndentOf_self[OF assms m] i by simp
  then show "validateIndentOfNestedElements t b bn st =
            forEachNestedNode (validateNode (errCorrectIndent e + indent (fst st))) b bn st"
    using f by (simp add: validateIndentOfNestedElements_def anchorIndent_def)
qed

theorem resolver_follows_specification_witness:
  "nodeAt exampleTree [0, 3] = Some exampleFunction
   \<and> correctIndentOf exampleTree exampleAnnotations [0, 3] = Inr 4
   \<and> firstNodeOfLine exampleTree [0, 3, 0, 4] = Inr [0, 3]
   \<and> columnOf exampleFunction = 6
   \<and> validateIndentOfNestedElements exampleTree [0, 3, 0, 4] exampleBlock exampleState =
       forEachNestedNode (validateNode 8) [0, 3, 0, 4] exampleBlock exampleState"
proof -
  have m: "map_of (indentErrors (snd exampleState)) [0, 3] = Some \<lparr>errIndent = 6, errCorrectIndent = 4\<rparr>"
    by (simp add: exampleState_def exampleAnnotations_def)
  have c: "columnOf exampleFunction = 6"
    by (simp add: exampleFunction_def tok_def)
  have i: "indent (fst exampleState) = 4" by (simp add: exampleState_def)
  have e: "errIndent \<lparr>errIndent = 6, errCorrectIndent = 4\<rparr> = columnOf exampleFunction"
    using c by simp
  note r = resolver_follows_specification[OF ex_nodeAt_function, of exampleAnnotations]
  have 1: "correctIndentOf exampleTree exampleAnnotations [0, 3] = Inr 4"
    using r ex_specResolver by simp
  have 2: "validateIndentOfNestedElements exampleTree [0, 3, 0, 4] exampleBlock exampleState =
       forEachNestedNode (validateNode 8) [0, 3, 0, 4] exampleBlock exampleState"
    using r[THEN conjunct2, rule_format, OF ex_firstNodeOfLine_block m e, of exampleBlock] i
    by simp
  show ?thesis using 1 2 ex_firstNodeOfLine_block c ex_nodeAt_function by simp
qed

subsection \<open>Blocks the block validator passes over\<close>

text \<open>
  C5. A node passed to \<open>validateBlock\<close> that has no direct child whose text is \<open>{\<close>, or
  whose opening and closing braces share a source line, is to get no report for a nested
  element, no report for the closing brace and no correction. The code does not keep the
  second half: its test \<open>isBracketsOnSameLine\<close> compares the line of the opening brace
  with the line of the node's last child, and the last child of an import directive is
  its semicolon. In the directive \<^verbatim>\<open>import {a}\<close> continued by \<^verbatim>\<open>    from <x>;\<close> on the next
  line, both braces stand on line 1 and the semicolon on line 2: the test answers false,
  and \<open>validateBlock\<close> reports the name \<open>a\<close> at line 1, column 8, attaches the correction
  (8, 4) to it, and reports the semicolon at line 2, column 12, as a closing brace. (The
  first half holds, and \<open>validateBlock\<close> returns at once on every node on which
  \<open>isBracketsOnSameLine\<close> answers true: \<open>validateBlock_guard\<close>.)
\<close>

theorem validateBlock_same_line_braces_reported:
  "hasStartBracket exampleImportOneLine
   \<and> nodeAt exampleImportOneLine [1] = Some (TerminalNode (tok 1 7) ''{'')
   \<and> nodeAt exampleImportOneLine [3] = Some (TerminalNode (tok 1 9) ''}'')
   \<and> endBracket exampleImportOneLine = Inr (Some (TerminalNode (tok 2 12) '';''))
   \<and> isBracketsOnSameLine exampleImportOneLine = Inr False
   \<and> validateBlock exampleImportOneLine [] freshState =
       Inr (\<lparr>indent = 4, indentUnit = ''spaces'', linesWithError = [1, 2]\<rparr>,
            \<lparr>reporter =
               [\<lparr>atLine = 1, atColumn = 8, ruleId = ''indent'',
                 message = [Str ''Expected indentation of '', Num 4, Str '' '', Str ''spaces'',
                            Str '' but found '', Num 8]\<rparr>,
                \<lparr>atLine = 2, atColumn = 12, ruleId = ''indent'',
                 message = [Str ''Expected indentation of '', Num 0, Str '' '', Str ''spaces'',
                            Str '' but found '', Num 12]\<rparr>],
             indentErrors = [([2], \<lparr>errIndent = 8, errCorrectIndent = 4\<rparr>)]\<rparr>)"
proof -
  have 1: "hasStartBracket exampleImportOneLine" by code_simp
  have 2: "nodeAt exampleImportOneLine [1] = Some (TerminalNode (tok 1 7) ''{'')"
    by (simp add: exampleImportOneLine_def)
  have 3: "nodeAt exampleImportOneLine [3] = Some (TerminalNode (tok 1 9) ''}'')"
    by (simp add: exampleImportOneLine_def)
  have 4: "endBracket exampleImportOneLine = Inr (Some (TerminalNode (tok 2 12) '';''))"
    by (simp add: exampleImportOneLine_def endBracket_def at_def)
  have 5: "isBracketsOnSameLine exampleImportOneLine = Inr False" by code_simp
  have 6: "validateBlock exampleImportOneLine [] freshState =
       Inr (\<lparr>indent = 4, indentUnit = ''spaces'', linesWithError = [1, 2]\<rparr>,
            \<lparr>reporter =
               [\<lparr>atLine = 1, atColumn = 8, ruleId = ''indent'',
                 message = [Str ''Expected indentation of '', Num 4, Str '' '', Str ''spaces'',
                            Str '' but found '', Num 8]\<rparr>,
                \<lparr>atLine = 2, atColumn = 12, ruleId = ''indent'',
                 message = [Str ''Expected indentation of '', Num 0, Str '' '', Str ''spaces'',
                            Str '' but found '', Num 12]\<rparr>],
             indentErrors = [([2], \<lparr>errIndent = 8, errCorrectIndent = 4\<rparr>)]\<rparr>)"
    by code_simp
  show ?thesis by (intro conjI 1 2 3 4 5 6)
qed

subsection \<open>The two notions of closing bracket\<close>

text \<open>
  C9. For every block node, the token whose line and column are taken for the closing
  bracket is the node's last child (\<open>endBracket\<close>), whatever its text, in both places that
  use it: \<open>isBracketsOnSameLine\<close> compares the line of the opening bracket with the line
  of the last child, and \<open>validateEndBracketIndent\<close> compares the required indent with
  the column of the last child and reports at the line and column of the last child.
  The upper bound of the nested elements \<open>forEachNestedNode\<close> visits is
  \<open>endBracketIndex\<close>, the index of the first child whose text is \<open>}\<close> (the number of
  children before it), or \<open>-1\<close> when there is none. The two can be different children: in
  the import directive of the example the last child is the semicolon at column 10 and
  the child at \<open>endBracketIndex\<close> is the brace at column 0, and the check of the closing
  bracket reports the semicolon; in the directive with both braces on line 1 and the
  semicolon on line 2 the same-line test answers false.
\<close>

theorem closing_bracket_is_last_child:
  "endBracket (RuleContext nm sta sto tx cs) = Inr (if cs = [] then None else Some (last cs))
   \<and> endBracketLine (RuleContext nm sta sto tx cs)
       = symbolLine (if cs = [] then None else Some (last cs))
   \<and> endBracketColumn (RuleContext nm sta sto tx cs)
       = symbolColumn (if cs = [] then None else Some (last cs))
   \<and> isBracketsOnSameLine (RuleContext nm sta sto tx cs)
       = (case startBracketLine (RuleContext nm sta sto tx cs) of
            Inl e \<Rightarrow> Inl e
          | Inr sl \<Rightarrow>
              (case symbolLine (if cs = [] then None else Some (last cs)) of
                 Inl e \<Rightarrow> Inl e
               | Inr el \<Rightarrow> Inr (sl = el)))
   \<and> isBracketsOnSameLine (RuleContext nm sta sto tx (cs @ [TerminalNode s x]))
       = (case startBracketLine (RuleContext nm sta sto tx (cs @ [TerminalNode s x])) of
            Inl e \<Rightarrow> Inl e
          | Inr sl \<Rightarrow> Inr (sl = line s))
   \<and> validateEndBracketIndent t c (RuleContext nm sta sto tx cs) st
       = (case anchorIndent t (indentErrors (snd st)) c of
            Inl e \<Rightarrow> Inl e
          | Inr r \<Rightarrow>
              (case symbolColumn (if cs = [] then None else Some (last cs)) of
                 Inl e \<Rightarrow> Inl e
               | Inr col \<Rightarrow>
                   if r \<noteq> col
                   then (case symbolLine (if cs = [] then None else Some (last cs)) of
                           Inl e \<Rightarrow> Inl e
                         | Inr l \<Rightarrow> Inr (makeReportCorrectLine l col r st))
                   else Inr st))
   \<and> validateEndBracketIndent t c (RuleContext nm sta sto tx (cs @ [TerminalNode s x])) st
       = (case anchorIndent t (indentErrors (snd st)) c of
            Inl e \<Rightarrow> Inl e
          | Inr r \<Rightarrow>
              Inr (if r \<noteq> column s then makeReportCorrectLine (line s) (column s) r st else st))
   \<and> endBracketIndex (RuleContext nm sta sto tx cs)
       = Inr (if ''}'' \<in> set (map getText cs)
              then int (length (takeWhile (\<lambda>x. x \<noteq> ''}'') (map getText cs))) else - 1)
   \<and> forEachNestedNode f c (RuleContext nm sta sto tx cs) st
       = Inr (fold (nestedStep f c cs)
                [nat (indexOf (map getText cs) ''{'' + 1) ..<
                 (if ''}'' \<in> set (map getText cs)
                  then length (takeWhile (\<lambda>x. x \<noteq> ''}'') (map getText cs)) else 0)] st)
   \<and> endBracket exampleImport = Inr (Some (TerminalNode (tok 3 10) '';''))
   \<and> endBracketIndex exampleImport = Inr 3
   \<and> nodeAt exampleImport [3] = Some (TerminalNode (tok 3 0) ''}'')
   \<and> validateEndBracketIndent exampleImport [] exampleImport freshState
       = Inr (makeReportCorrectLine 3 10 0 freshState)
   \<and> nodeAt exampleImportOneLine [1] = Some (TerminalNode (tok 1 7) ''{'')
   \<and> nodeAt exampleImportOneLine [3] = Some (TerminalNode (tok 1 9) ''}'')
   \<and> isBracketsOnSameLine exampleImportOneLine = Inr False"
proof -
  let ?n = "RuleContext nm sta sto tx cs"
  let ?m = "RuleContext nm sta sto tx (cs @ [TerminalNode s x])"
  let ?last = "if cs = [] then None else Some (last cs)"
  have 1: "endBracket ?n = Inr ?last"
    by (simp add: endBracket_def at_last)
  have 2: "endBracketLine ?n = symbolLine ?last"
    by (simp add: endBracketLine_def 1)
  have 3: "endBracketColumn ?n = symbolColumn ?last"
    by (simp add: endBracketColumn_def 1)
  have 4: "isBracketsOnSameLine ?n
       = (case startBracketLine ?n of
            Inl e \<Rightarrow> Inl e
          | Inr sl \<Rightarrow> (case symbolLine ?last of Inl e \<Rightarrow> Inl e | Inr el \<Rightarrow> Inr (sl = el)))"
    unfolding isBracketsOnSameLine_def 2 ..
  have m1: "endBracket ?m = Inr (Some (TerminalNode s x))"
    using at_last[of "cs @ [TerminalNode s x]"] by (simp add: endBracket_def)
  have m2: "endBracketLine ?m = Inr (line s)"
    by (simp add: endBracketLine_def m1 symbolLine_def)
  have m3: "endBracketColumn ?m = Inr (column s)"
    by (simp add: endBracketColumn_def m1 symbolColumn_def)
  have 5: "isBracketsOnSameLine ?m
       = (case startBracketLine ?m of Inl e \<Rightarrow> Inl e | Inr sl \<Rightarrow> Inr (sl = line s))"
    unfolding isBracketsOnSameLine_def m2 by (simp split: sum.splits)
  have 6: "validateEndBracketIndent t c ?n st
       = (case anchorIndent t (indentErrors (snd st)) c of
            Inl e \<Rightarrow> Inl e
          | Inr r \<Rightarrow>
              (case symbolColumn ?last of
                 Inl e \<Rightarrow> Inl e
               | Inr col \<Rightarrow>
                   if r \<noteq> col
                   then (case symbolLine ?last of
                           Inl e \<Rightarrow> Inl e
                         | Inr l \<Rightarrow> Inr (makeReportCorrectLine l col r st))
                   else Inr st))"
    unfolding validateEndBracketIndent_def 2 3 ..
  have 7: "validateEndBracketIndent t c ?m st
       = (case anchorIndent t (indentErrors (snd st)) c of
            Inl e \<Rightarrow> Inl e
          | Inr r \<Rightarrow>
              Inr (if r \<noteq> column s then makeReportCorrectLine (line s) (column s) r st else st))"
    unfolding validateEndBracketIndent_def m2 m3 by (simp split: sum.splits)
  have 8: "endBracketIndex ?n
       = Inr (if ''}'' \<in> set (map getText cs)
              then int (length (takeWhile (\<lambda>x. x \<noteq> ''}'') (map getText cs))) else - 1)"
    unfolding endBracketIndex_def by (simp add: indexOf_first)
  have n: "nat (indexOf (map getText cs) ''}'')
           = (if ''}'' \<in> set (map getText cs)
              then length (takeWhile (\<lambda>x. x \<noteq> ''}'') (map getText cs)) else 0)"
    by (simp add: indexOf_first[of _ "''}''"])
  have 9: "forEachNestedNode f c ?n st
       = Inr (fold (nestedStep f c cs)
                [nat (indexOf (map getText cs) ''{'' + 1) ..<
                 (if ''}'' \<in> set (map getText cs)
                  then length (takeWhile (\<lambda>x. x \<noteq> ''}'') (map getText cs)) else 0)] st)"
    unfolding forEachNestedNode_def n[symmetric] by simp
  have 10: "endBracket exampleImport = Inr (Some (TerminalNode (tok 3 10) '';''))"
    by (simp add: exampleImport_def endBracket_def at_def)
  have 11: "endBracketIndex exampleImport = Inr 3"
    by (simp add: exampleImport_def endBracketIndex_def)
  have 12: "nodeAt exampleImport [3] = Some (TerminalNode (tok 3 0) ''}'')"
    by (simp add: exampleImport_def)
  have 13: "validateEndBracketIndent exampleImport [] exampleImport freshState
       = Inr (makeReportCorrectLine 3 10 0 freshState)"
    by code_simp
  have 14: "nodeAt exampleImportOneLine [1] = Some (TerminalNode (tok 1 7) ''{'')"
    by (simp add: exampleImportOneLine_def)
  have 15: "nodeAt exampleImportOneLine [3] = Some (TerminalNode (tok 1 9) ''}'')"
    by (simp add: exampleImportOneLine_def)
  have 16: "isBracketsOnSameLine exampleImportOneLine = Inr False" by code_simp
  show ?thesis by (intro conjI 1 2 3 4 5 6 7 8 9 10 11 12 13 14 15 16)
qed

subsection \<open>The indent of the closing bracket\<close>

text \<open>
  C2. For a block with an opening brace whose braces are not on the same line, the indent
  required of the closing brace is \<open>correctIndentOf(firstNodeOfLine(ctx))\<close>, with no
  indent unit added, and when the column of the closing brace differs a report is to be
  made at the line and column of the closing brace, with no correction attached. The code
  computes the required indent so and attaches nothing, but it compares and reports the
  node's last child (\<open>validateEndBracketIndent_last_child\<close>), which in an import directive
  is the semicolon and not the closing brace. In the directive of the example, whose
  closing brace stands at line 3, column 0, as required, the code reports line 3,
  column 10, where the semicolon stands. In the same directive with the closing brace
  at column 2, the one report the code makes is at line 3, column 12, again the
  semicolon, and names 12 as the column found; nothing is reported at column 2.
\<close>

theorem validateBlock_reports_last_child:
  "nodeAt exampleImport [3] = Some (TerminalNode (tok 3 0) ''}'')
   \<and> anchorIndent exampleImport [] [] = Inr 0
   \<and> validateBlock exampleImport [] freshState =
       Inr (\<lparr>indent = 4, indentUnit = ''spaces'', linesWithError = [3]\<rparr>,
            \<lparr>reporter =
               [\<lparr>atLine = 3, atColumn = 10, ruleId = ''indent'',
                 message = [Str ''Expected indentation of '', Num 0, Str '' '', Str ''spaces'',
                            Str '' but found '', Num 10]\<rparr>],
             indentErrors = []\<rparr>)
   \<and> nodeAt exampleImportMisplaced [3] = Some (TerminalNode (tok 3 2) ''}'')
   \<and> anchorIndent exampleImportMisplaced [] [] = Inr 0
   \<and> validateBlock exampleImportMisplaced [] freshState =
       Inr (\<lparr>indent = 4, indentUnit = ''spaces'', linesWithError = [3]\<rparr>,
            \<lparr>reporter =
               [\<lparr>atLine = 3, atColumn = 12, ruleId = ''indent'',
                 message = [Str ''Expected indentation of '', Num 0, Str '' '', Str ''spaces'',
                            Str '' but found '', Num 12]\<rparr>],
             indentErrors = []\<rparr>)"
proof -
  have 1: "nodeAt exampleImport [3] = Some (TerminalNode (tok 3 0) ''}'')"
    by (simp add: exampleImport_def)
  have 2: "anchorIndent exampleImport [] [] = Inr 0" by code_simp
  have 3: "validateBlock exampleImport [] freshState =
       Inr (\<lparr>indent = 4, indentUnit = ''spaces'', linesWithError = [3]\<rparr>,
            \<lparr>reporter =
               [\<lparr>atLine = 3, atColumn = 10, ruleId = ''indent'',
                 message = [Str ''Expected indentation of '', Num 0, Str '' '', Str ''spaces'',
                            Str '' but found '', Num 10]\<rparr>],
             indentErrors = []\<rparr>)"
    by code_simp
  have 4: "nodeAt exampleImportMisplaced [3] = Some (TerminalNode (tok 3 2) ''}'')"
    by (simp add: exampleImportMisplaced_def)
  have 5: "anchorIndent exampleImportMisplaced [] [] = Inr 0" by code_simp
  have 6: "validateBlock exampleImportMisplaced [] freshState =
       Inr (\<lparr>indent = 4, indentUnit = ''spaces'', linesWithError = [3]\<rparr>,
            \<lparr>reporter =
               [\<lparr>atLine = 3, atColumn = 12, ruleId = ''indent'',
                 message = [Str ''Expected indentation of '', Num 0, Str '' '', Str ''spaces'',
                            Str '' but found '', Num 12]\<rparr>],
             indentErrors = []\<rparr>)"
    by code_simp
  show ?thesis by (intro conjI 1 2 3 4 5 6)
qed

subsection \<open>The single-line statement validator\<close>

text \<open>
  C3. For every \<open>if\<close>, \<open>while\<close>, \<open>do-while\<close> or \<open>for\<close> construct (a rule context
  with children \<open>cs\<close> and start token \<open>startTok\<close>) and every index of a controlled
  statement: when the construct has no more children than the index, nothing is reported
  and the state stays as it is. When the child at the index exists, has a first child, and
  the construct has a parent, the validator reports at the statement's line and column,
  records the line and attaches the correction (column, required) to the statement exactly
  when the statement's first child is neither a \<open>BlockContext\<close> nor an
  \<open>IfStatementContext\<close>, the statement starts on another line than the construct's start
  token, and its column differs from \<open>correctIndentOf(ctx.parentCtx)\<close> plus one indent unit;
  otherwise the state stays as it is.
\<close>

theorem single_statement_validator:
  assumes "nodeAt t c = Some (RuleContext nm startTok sto tx cs)"
  shows "(int (length cs) \<le> index \<longrightarrow> validate t c index st = Inr st)
    \<and> (\<forall>statement first rest par.
          at cs index = Some statement \<longrightarrow> children statement = Some (first # rest) \<longrightarrow>
          parentCtx c = Some par \<longrightarrow>
          (\<exists>r. correctIndentOf t (indentErrors (snd st)) par = Inr r
             \<and> validate t c index st =
                 Inr (if constructorName first \<notin> {''BlockContext'', ''IfStatementContext''}
                         \<and> lineOf statement \<noteq> line startTok
                         \<and> columnOf statement \<noteq> r + indent (fst st)
                      then reportAndAttach (c @ [nat index]) (lineOf statement)
                             (columnOf statement) (r + indent (fst st)) st
                      else st)))"
proof (intro conjI allI impI)
  assume "int (length cs) \<le> index"
  then show "validate t c index st = Inr st"
    using assms by (simp add: validate_def)
next
  fix statement first rest par
  assume s: "at cs index = Some statement" and f: "children statement = Some (first # rest)"
    and p: "parentCtx c = Some par"
  obtain pn where "nodeAt t par = Some pn" using parent_valid[OF assms p] by blast
  then obtain r where r: "correctIndentOf t (indentErrors (snd st)) par = Inr r"
    using correctIndentOf_ok by blast
  have i: "\<not> int (length cs) \<le> index" using at_Some[OF s] by auto
  have "validate t c index st =
                 Inr (if constructorName first \<notin> {''BlockContext'', ''IfStatementContext''}
                         \<and> lineOf statement \<noteq> line startTok
                         \<and> columnOf statement \<noteq> r + indent (fst st)
                      then reportAndAttach (c @ [nat index]) (lineOf statement)
                             (columnOf statement) (r + indent (fst st)) st
                      else st)"
    using assms s f p r i
    by (cases st)
       (auto simp: validate_def Let_def reportAndAttach_def makeReportCorrectLine_def errorAt_def)
  with r show "\<exists>r. correctIndentOf t (indentErrors (snd st)) par = Inr r
             \<and> validate t c index st =
                 Inr (if constructorName first \<notin> {''BlockContext'', ''IfStatementContext''}
                         \<and> lineOf statement \<noteq> line startTok
                         \<and> columnOf statement \<noteq> r + indent (fst st)
                      then reportAndAttach (c @ [nat index]) (lineOf statement)
                             (columnOf statement) (r + indent (fst st)) st
                      else st)"
    by blast
qed

theorem single_statement_validator_witness:
  "nodeAt exampleTree [0, 3, 0, 4, 2, 0] =
     Some (RuleContext ''IfStatementContext'' (tok 4 8) (tok 5 12) ''if(a)b;'' exampleIfChildren)
   \<and> int (length exampleIfChildren) \<le> 6
   \<and> validate exampleTree [0, 3, 0, 4, 2, 0] 6 exampleState = Inr exampleState
   \<and> at exampleIfChildren 4 = Some (exprStatement 5 11 ''b'')
   \<and> parentCtx [0, 3, 0, 4, 2, 0] = Some [0, 3, 0, 4, 2]
   \<and> correctIndentOf exampleTree (indentErrors (snd exampleState)) [0, 3, 0, 4, 2] = Inr 8
   \<and> validate exampleTree [0, 3, 0, 4, 2, 0] 4 exampleState =
        Inr (reportAndAttach [0, 3, 0, 4, 2, 0, 4] 5 11 12 exampleState)"
proof -
  note w = single_statement_validator[OF ex_nodeAt_if, of _ exampleState]
  have l: "int (length exampleIfChildren) \<le> 6" by (simp add: exampleIfChildren_def)
  have 1: "validate exampleTree [0, 3, 0, 4, 2, 0] 6 exampleState = Inr exampleState"
    using w[of 6, THEN conjunct1] l by simp
  have a: "at exampleIfChildren 4 = Some (exprStatement 5 11 ''b'')"
    by (simp add: exampleIfChildren_def at_def)
  have c: "children (exprStatement 5 11 ''b'') =
     Some (RuleContext ''SimpleStatementContext'' (tok 5 11) (tok 5 (11 + 1)) (''b'' @ '';'')
          [RuleContext ''ExpressionStatementContext'' (tok 5 11) (tok 5 (11 + 1)) (''b'' @ '';'')
             [RuleContext ''ExpressionContext'' (tok 5 11) (tok 5 11) ''b'' [TerminalNode (tok 5 11) ''b''],
              TerminalNode (tok 5 (11 + 1)) '';'']] # [])"
    by (simp add: exprStatement_def)
  have p: "parentCtx [0, 3, 0, 4, 2, 0] = Some [0, 3, 0, 4, 2]" by (simp add: parentCtx_def)
  have i: "indentErrors (snd exampleState) = exampleAnnotations" "indent (fst exampleState) = 4"
    by (simp_all add: exampleState_def)
  obtain r where r: "correctIndentOf exampleTree (indentErrors (snd exampleState)) [0, 3, 0, 4, 2] = Inr r"
    and v: "validate exampleTree [0, 3, 0, 4, 2, 0] 4 exampleState =
       Inr (if constructorName (RuleContext ''SimpleStatementContext'' (tok 5 11) (tok 5 (11 + 1)) (''b'' @ '';'')
          [RuleContext ''ExpressionStatementContext'' (tok 5 11) (tok 5 (11 + 1)) (''b'' @ '';'')
             [RuleContext ''ExpressionContext'' (tok 5 11) (tok 5 11) ''b'' [TerminalNode (tok 5 11) ''b''],
              TerminalNode (tok 5 (11 + 1)) '';'']]) \<notin> {''BlockContext'', ''IfStatementContext''}
               \<and> lineOf (exprStatement 5 11 ''b'') \<noteq> line (tok 4 8)
               \<and> columnOf (exprStatement 5 11 ''b'') \<noteq> r + indent (fst exampleState)
            then reportAndAttach ([0, 3, 0, 4, 2, 0] @ [nat 4]) (lineOf (exprStatement 5 11 ''b''))
                   (columnOf (exprStatement 5 11 ''b'')) (r + indent (fst exampleState)) exampleState
            else exampleState)"
    using w[of 4, THEN conjunct2, rule_format, OF a c p] by blast
  have r8: "r = 8" using r i ex_correctIndentOf_if_parent by simp
  have 2: "validate exampleTree [0, 3, 0, 4, 2, 0] 4 exampleState =
        Inr (reportAndAttach [0, 3, 0, 4, 2, 0, 4] 5 11 12 exampleState)"
    using v unfolding r8 i by (simp add: exprStatement_def tok_def)
  show ?thesis using ex_nodeAt_if l 1 a p r 2 unfolding r8 by simp
qed

subsection \<open>The final pass over the lines\<close>

text \<open>
  C4. In the final pass (\<open>exitSourceUnit\<close>, for a checker whose indent unit is not zero
  and whose line-indent map is still empty, as the constructor makes it), the indent
  recorded for a line is the minimal column among the line's significant tokens
  (\<open>lineIndent\<close>), and the reports added are exactly these: for every line that has a
  significant token, in ascending order, none if the line is among the lines with error of
  the single-line or of the block validator, and otherwise one report
  \<open>Indentation is incorrect\<close> at that line and its recorded column exactly when the
  indent unit does not divide the column. No correction is attached.
\<close>

theorem base_multiplicity_pass:
  assumes "baseIndent (baseIndentMultiplicityValidator chk) \<noteq> 0"
    and "firstIndent (baseIndentMultiplicityValidator chk) = []"
  shows "reporter (snd (exitSourceUnit toks (chk, w))) =
           reporter w @
             map (\<lambda>l. baseReport l (lineIndent toks l))
               (filter (\<lambda>l. l \<notin> set (linesWithError (nestedSingleLineValidator chk))
                                 \<union> set (linesWithError (blockValidator chk))
                          \<and> \<not> baseIndent (baseIndentMultiplicityValidator chk) dvd lineIndent toks l)
                  (sort (remdups (map line (significant toks)))))
    \<and> map_of (firstIndent (baseIndentMultiplicityValidator (fst (exitSourceUnit toks (chk, w))))) l =
          (if l \<in> line ` set (significant toks) then Some (lineIndent toks l) else None)
    \<and> indentErrors (snd (exitSourceUnit toks (chk, w))) = indentErrors w"
proof -
  let ?b = "baseIndentMultiplicityValidator chk"
  let ?b1 = "fold applyTokenIndent (significant toks) ?b"
  let ?lwe = "linesWithError (nestedSingleLineValidator chk) @ linesWithError (blockValidator chk)"
  have bv: "baseValidate ?lwe toks (?b, reporter w) =
     (?b1, fold (baseLineStep ?b1 ?lwe) (sort (remdups (map line (significant toks)))) (reporter w))"
    using significant_lines[OF assms(2), of toks]
    by (simp add: baseValidate_def Let_def significant_def)
  have ind: "\<And>l. l \<in> set (sort (remdups (map line (significant toks)))) \<Longrightarrow>
      map_of (firstIndent ?b1) l = Some (lineIndent toks l)"
    using significant_indent[OF assms(2), of toks] by simp
  have nz: "baseIndent ?b1 \<noteq> 0" using assms(1) by simp
  have f: "fold (baseLineStep ?b1 ?lwe) (sort (remdups (map line (significant toks)))) (reporter w)
      = reporter w @ map (\<lambda>l. baseReport l (lineIndent toks l))
               (filter (\<lambda>l. l \<notin> set ?lwe \<and> \<not> baseIndent ?b1 dvd lineIndent toks l)
                  (sort (remdups (map line (significant toks)))))"
    by (rule fold_baseLineStep[where f="lineIndent toks", OF ind nz]) simp
  have e: "exitSourceUnit toks (chk, w) =
     (chk\<lparr>baseIndentMultiplicityValidator := ?b1\<rparr>,
      w\<lparr>reporter := fold (baseLineStep ?b1 ?lwe) (sort (remdups (map line (significant toks)))) (reporter w)\<rparr>)"
    by (simp add: exitSourceUnit_def getLinesWithError_def bv)
  show ?thesis
    unfolding e using f significant_indent[OF assms(2), of toks l] by (simp add: Un_commute)
qed

theorem base_multiplicity_pass_witness:
  "baseIndent (baseIndentMultiplicityValidator exampleChecker) \<noteq> 0
   \<and> firstIndent (baseIndentMultiplicityValidator exampleChecker) = []
   \<and> reporter (snd (exitSourceUnit exampleTokens
        (exampleChecker, \<lparr>reporter = [], indentErrors = exampleAnnotations\<rparr>))) = [baseReport 6 6]
   \<and> lineIndent exampleTokens 5 = 11 \<and> lineIndent exampleTokens 3 = 8"
proof -
  have a: "baseIndent (baseIndentMultiplicityValidator exampleChecker) \<noteq> 0"
    by (simp add: exampleChecker_def)
  have b: "firstIndent (baseIndentMultiplicityValidator exampleChecker) = []"
    by (simp add: exampleChecker_def)
  show ?thesis
    using base_multiplicity_pass[OF a b, of exampleTokens
        "\<lparr>reporter = [], indentErrors = exampleAnnotations\<rparr>"]
      a b ex_lineIndent
    unfolding ex_base_reports by simp
qed

subsection \<open>Configuration\<close>

text \<open>
  C6. For every configuration object (any value but \<open>undefined\<close> and \<open>null\<close>, on
  which the constructor's read of \<open>config.rules\<close> fails): the constructor never fails;
  when \<open>rules.indent\<close> is a two-element list whose second element is \<open>tabs\<close>, the
  indent unit size of all three validators is 1 and the unit name is \<open>tabs\<close>; and when
  the configuration is absent or malformed (\<open>rules\<close> missing or falsy, \<open>rules.indent\<close>
  missing or falsy, not a list of two elements, or with a second element that is neither a
  number nor \<open>tabs\<close>) the checker is the default one, 4 and \<open>spaces\<close>.
\<close>

theorem configuration_fallback:
  assumes "config \<noteq> JUndefined" and "config \<noteq> JNull"
  shows "(\<exists>chk. newIndentChecker config = Inr chk)
    \<and> (\<forall>rules sev.
          getProp config ''rules'' = Inr rules \<longrightarrow>
          getProp rules ''indent'' = Inr (JArray [sev, JString ''tabs'']) \<longrightarrow>
          newIndentChecker config = Inr (checkerWith 1 ''tabs''))
    \<and> (\<forall>rules.
          getProp config ''rules'' = Inr rules \<longrightarrow>
          (\<not> truthy rules \<or> (\<exists>ind. getProp rules ''indent'' = Inr ind \<and> malformedEntry ind)) \<longrightarrow>
          newIndentChecker config = Inr (checkerWith 4 ''spaces''))"
proof (intro conjI allI impI)
  obtain pc where "parseConfig config = Inr pc" using parseConfig_ok[OF assms] by blast
  then show "\<exists>chk. newIndentChecker config = Inr chk"
    by (simp add: newIndentChecker_def Let_def)
next
  fix rules sev
  assume "getProp config ''rules'' = Inr rules"
    "getProp rules ''indent'' = Inr (JArray [sev, JString ''tabs''])"
  then show "newIndentChecker config = Inr (checkerWith 1 ''tabs'')"
    by (simp add: newIndentChecker_def parseConfig_tabs checkerWith_def Let_def)
next
  fix rules
  assume "getProp config ''rules'' = Inr rules"
    "\<not> truthy rules \<or> (\<exists>ind. getProp rules ''indent'' = Inr ind \<and> malformedEntry ind)"
  then show "newIndentChecker config = Inr (checkerWith 4 ''spaces'')"
    by (simp add: newIndentChecker_def parseConfig_malformed checkerWith_def Let_def)
qed

theorem configuration_fallback_witness:
  "newIndentChecker tabsConfig = Inr (checkerWith 1 ''tabs'')
   \<and> newIndentChecker (JObject []) = Inr (checkerWith 4 ''spaces'')
   \<and> newIndentChecker wordConfig = Inr (checkerWith 4 ''spaces'')
   \<and> newIndentChecker longConfig = Inr (checkerWith 4 ''spaces'')
   \<and> malformedEntry (JArray [JString ''error'', JString ''four''])
   \<and> malformedEntry (JArray [JString ''error'', JString ''tabs'', JNumber 8])"
proof -
  have 1: "newIndentChecker tabsConfig = Inr (checkerWith 1 ''tabs'')"
    by (rule configuration_fallback[THEN conjunct2, THEN conjunct1, rule_format,
          of _ "JObject [(''indent'', JArray [JString ''error'', JString ''tabs''])]" "JString ''error''"])
       (simp_all add: tabsConfig_def)
  have 2: "newIndentChecker (JObject []) = Inr (checkerWith 4 ''spaces'')"
    by (rule configuration_fallback[THEN conjunct2, THEN conjunct2, rule_format, of _ JUndefined])
       simp_all
  have m3: "malformedEntry (JArray [JString ''error'', JString ''four''])"
    by (simp add: usable_def)
  have 3: "newIndentChecker wordConfig = Inr (checkerWith 4 ''spaces'')"
    by (rule configuration_fallback[THEN conjunct2, THEN conjunct2, rule_format,
          of _ "JObject [(''indent'', JArray [JString ''error'', JString ''four''])]"])
       (simp_all add: wordConfig_def usable_def)
  have m4: "malformedEntry (JArray [JString ''error'', JString ''tabs'', JNumber 8])"
    by simp
  have 4: "newIndentChecker longConfig = Inr (checkerWith 4 ''spaces'')"
    by (rule configuration_fallback[THEN conjunct2, THEN conjunct2, rule_format,
          of _ "JObject [(''indent'', JArray [JString ''error'', JString ''tabs'', JNumber 8])]"])
       (simp_all add: longConfig_def)
  show ?thesis by (intro conjI 1 2 3 4 m3 m4)
qed

subsection \<open>Termination of the walks\<close>

text \<open>
  C8. On every tree and at every node the walks return: the upward walk of the resolver
  \<open>correctIndentOf\<close> and the walk-up of \<open>firstNodeOfLine\<close> return within a number of
  iterations of one more than the depth of the node (the length of its path from the
  root), and the recursion of \<open>firstNodeOfLine\<close> returns within a number of calls of one
  more than the number of nodes that come before the node in the document, which is at
  most the number of nodes of the tree; under these budgets the loops return what
  \<open>correctIndentOf_loop\<close>, \<open>walkUp\<close> and \<open>firstNodeOfLine\<close> return. A tree is a value of
  the datatype \<open>node\<close>, so it is finite. The backward sibling scan \<open>scanBack\<close> and the
  traversal \<open>walk\<close> are structural recursions, on the index and on the tree, and every
  other loop of the pass is a \<open>fold\<close> over a list.
\<close>

theorem walks_terminate:
  "correctIndentOf_loop_fuel (Suc (length c)) t ann l curIndent c
     = Some (correctIndentOf_loop t ann l curIndent c)
   \<and> walkUp_fuel (Suc (length c)) t c = Some (walkUp t c)
   \<and> firstNodeOfLine_fuel (Suc (docIndex t c)) t c = Some (firstNodeOfLine t c)
   \<and> docIndex t c \<le> card {q. nodeAt t q \<noteq> None}"
proof -
  have "{q. nodeAt t q \<noteq> None \<and> q < c} \<subseteq> {q. nodeAt t q \<noteq> None}" by blast
  then have "docIndex t c \<le> card {q. nodeAt t q \<noteq> None}"
    unfolding docIndex_def by (rule card_mono[OF finite_valid])
  moreover have "correctIndentOf_loop_fuel (Suc (length c)) t ann l curIndent c
                   = Some (correctIndentOf_loop t ann l curIndent c)"
    by (rule correctIndentOf_loop_fuel_enough) simp
  moreover have "walkUp_fuel (Suc (length c)) t c = Some (walkUp t c)"
    by (rule walkUp_fuel_enough) simp
  moreover have "firstNodeOfLine_fuel (Suc (docIndex t c)) t c = Some (firstNodeOfLine t c)"
    by (rule firstNodeOfLine_fuel_enough) simp
  ultimately show ?thesis by (intro conjI)
qed

subsection \<open>Corrections are attached once\<close>

text \<open>
  C7. Within one checking traversal no node is given a correction twice. The annotations
  are the assignments of \<open>indentError\<close> made so far, the newest first, and nothing ever
  takes one out. The walk of a subtree only puts new ones in front, on nodes strictly
  below the root of the subtree, and on none of them twice. A whole traversal starts
  from no annotations, so at its end no node occurs twice in them: every correction
  that was attached during the traversal is still the one its node carries. This holds
  of every traversal, also of one in which hooks raise and the walk goes on. The reason
  is that a hook writes only on children of the node it is entered with, each child at
  most once, whether it returns or raises (\<open>enterRuleCaught_writes\<close>: the children of the
  source unit, the non-terminal children between the brackets of a block, the statements
  at the given positions of an \<open>if\<close>, \<open>while\<close>, \<open>do\<close> or \<open>for\<close>), and that the traversal
  enters every node once, with the one hook of its class.
\<close>

theorem corrections_never_overwritten:
  "(\<exists>W. indentErrors (snd (walk t toks n c st)) = W @ indentErrors (snd st)
         \<and> distinct (map fst W) \<and> fst ` set W \<subseteq> {q. strict_prefix c q})
   \<and> distinct (map fst (indentErrors (snd
         (walk t toks t [] (chk, \<lparr>reporter = rep, indentErrors = []\<rparr>)))))
   \<and> (\<forall>config st'.
         checkSource config t toks = Inr st' \<longrightarrow>
         distinct (map fst (indentErrors (snd st')))
         \<and> (\<forall>q e. (q, e) \<in> set (indentErrors (snd st')) \<longrightarrow>
                map_of (indentErrors (snd st')) q = Some e))"
proof (intro conjI allI impI)
  show "\<exists>W. indentErrors (snd (walk t toks n c st)) = W @ indentErrors (snd st)
         \<and> distinct (map fst W) \<and> fst ` set W \<subseteq> {q. strict_prefix c q}"
    using walk_logExt(1)[of t c st toks n] unfolding logExt_def by blast
next
  have "logExt t {q. strict_prefix [] q} []
          (indentErrors (snd (walk t toks t [] (chk, \<lparr>reporter = rep, indentErrors = []\<rparr>))))"
    using walk_logExt(1)[of t "[]" "(chk, \<lparr>reporter = rep, indentErrors = []\<rparr>)" toks t] by simp
  then show "distinct (map fst (indentErrors (snd
         (walk t toks t [] (chk, \<lparr>reporter = rep, indentErrors = []\<rparr>)))))"
    unfolding logExt_def by auto
next
  fix config st'
  assume cs: "checkSource config t toks = Inr st'"
  from cs obtain chk' where
    w: "st' = walk t toks t [] (chk', \<lparr>reporter = [], indentErrors = []\<rparr>)"
    by (auto simp: checkSource_def split: sum.splits)
  have "logExt t {q. strict_prefix [] q} [] (indentErrors (snd st'))"
    using walk_logExt(1)[of t "[]" "(chk', \<lparr>reporter = [], indentErrors = []\<rparr>)" toks t]
    unfolding w by simp
  then show d: "distinct (map fst (indentErrors (snd st')))"
    unfolding logExt_def by auto
  fix q e
  assume "(q, e) \<in> set (indentErrors (snd st'))"
  then show "map_of (indentErrors (snd st')) q = Some e"
    using d by simp
qed

theorem corrections_never_overwritten_witness:
  "enterRule exampleTruncated [0] ''ImportDirectiveContext''
      (checkerWith 4 ''spaces'', \<lparr>reporter = [], indentErrors = []\<rparr>) = Inl TypeError
   \<and> (\<exists>st'. checkSource exampleConfig exampleTruncated truncatedTokens = Inr st'
        \<and> indentErrors (snd st') = [([1, 3], \<lparr>errIndent = 6, errCorrectIndent = 4\<rparr>)]
        \<and> map_of (indentErrors (snd st')) [1, 3] = Some \<lparr>errIndent = 6, errCorrectIndent = 4\<rparr>)
   \<and> validateMultiple exampleIfNoElse [0] [4, 6] freshState = Inl TypeError
   \<and> indentErrors (snd (walk exampleIfNoElse [] exampleIfNoElse []
        (checkerWith 4 ''spaces'', \<lparr>reporter = [], indentErrors = []\<rparr>)))
       = [([0, 4], \<lparr>errIndent = 11, errCorrectIndent = 12\<rparr>)]
   \<and> (\<exists>st'. checkSource exampleConfig exampleTree exampleTokens = Inr st'
        \<and> indentErrors (snd st') =
            [([0, 3, 0, 4, 2, 0, 4], \<lparr>errIndent = 11, errCorrectIndent = 12\<rparr>),
             ([0, 3], \<lparr>errIndent = 6, errCorrectIndent = 4\<rparr>)]
        \<and> distinct (map fst (indentErrors (snd st'))))"
proof -
  have 1: "enterRule exampleTruncated [0] ''ImportDirectiveContext''
      (checkerWith 4 ''spaces'', \<lparr>reporter = [], indentErrors = []\<rparr>) = Inl TypeError"
    by code_simp
  have e2: "map_sum id (\<lambda>st. indentErrors (snd st))
              (checkSource exampleConfig exampleTruncated truncatedTokens)
         = Inr [([1, 3], \<lparr>errIndent = 6, errCorrectIndent = 4\<rparr>)]"
    by code_simp
  then obtain st2 where s2: "checkSource exampleConfig exampleTruncated truncatedTokens = Inr st2"
    by (cases "checkSource exampleConfig exampleTruncated truncatedTokens") auto
  have i2: "indentErrors (snd st2) = [([1, 3], \<lparr>errIndent = 6, errCorrectIndent = 4\<rparr>)]"
    using e2 s2 by simp
  have m2: "map_of (indentErrors (snd st2)) [1, 3] = Some \<lparr>errIndent = 6, errCorrectIndent = 4\<rparr>"
    using corrections_never_overwritten[of exampleTruncated truncatedTokens] s2 i2 by simp
  have 3: "validateMultiple exampleIfNoElse [0] [4, 6] freshState = Inl TypeError"
    by code_simp
  have 4: "indentErrors (snd (walk exampleIfNoElse [] exampleIfNoElse []
        (checkerWith 4 ''spaces'', \<lparr>reporter = [], indentErrors = []\<rparr>)))
       = [([0, 4], \<lparr>errIndent = 11, errCorrectIndent = 12\<rparr>)]"
    by code_simp
  have e5: "map_sum id (\<lambda>st. indentErrors (snd st))
              (checkSource exampleConfig exampleTree exampleTokens)
         = Inr [([0, 3, 0, 4, 2, 0, 4], \<lparr>errIndent = 11, errCorrectIndent = 12\<rparr>),
                ([0, 3], \<lparr>errIndent = 6, errCorrectIndent = 4\<rparr>)]"
    by code_simp
  then obtain st5 where s5: "checkSource exampleConfig exampleTree exampleTokens = Inr st5"
    by (cases "checkSource exampleConfig exampleTree exampleTokens") auto
  have i5: "indentErrors (snd st5) =
            [([0, 3, 0, 4, 2, 0, 4], \<lparr>errIndent = 11, errCorrectIndent = 12\<rparr>),
             ([0, 3], \<lparr>errIndent = 6, errCorrectIndent = 4\<rparr>)]"
    using e5 s5 by simp
  have d5: "distinct (map fst (indentErrors (snd st5)))"
    using i5 by simp
  show ?thesis using 1 s2 i2 m2 3 4 s5 i5 d5 by blast
qed

end
